theory Spec2Isabelle
  imports
    Main
    "HOL-Library.Char_ord"
    "HOL-Library.List_Lexorder"
    "HOL-Library.Multiset"
    "HOL-Library.Sublist"
begin

section \<open>The store (data/schema.sql)\<close>

text \<open>
  The four tables of \<^verbatim>\<open>data/schema.sql\<close>, one record per row. A column declared
  \<^verbatim>\<open>NOT NULL\<close> holds a value, every other column an option (\<open>None\<close> is SQL
  \<^verbatim>\<open>NULL\<close>). \<^verbatim>\<open>INTEGER\<close> and \<^verbatim>\<open>BOOLEAN\<close> columns are integers, \<^verbatim>\<open>TEXT\<close>,
  \<^verbatim>\<open>DATE\<close> and \<^verbatim>\<open>TIMESTAMP\<close> columns are the text SQLite stores for them
  (\<^verbatim>\<open>CURRENT_TIMESTAMP\<close> writes \<^verbatim>\<open>YYYY-MM-DD HH:MM:SS\<close>). Text is compared as SQLite's
  default BINARY collation does: byte by byte, a proper prefix first, which is the
  lexicographic order on \<open>string\<close>.

  Columns that share a name across tables are told apart by a prefix:
  \<open>g_id\<close>, \<open>p_id\<close>, \<open>r_id\<close>, \<open>a_id\<close> are the \<^verbatim>\<open>id\<close> columns,
  \<open>p_updated_at\<close> is \<^verbatim>\<open>promotions.updated_at\<close> and \<open>a_game_id\<close> is
  \<^verbatim>\<open>alerts_sent.game_id\<close>.
\<close>

record game =
  g_id :: int
  game_date :: string
  day_of_week :: string
  start_time :: "string option"
  opponent :: string
  is_home :: int
  ticket_url :: "string option"
  updated_at :: "string option"

record promotion =
  p_id :: int
  game_id :: int
  promo_type :: string
  description :: "string option"
  p_updated_at :: "string option"

record recipient =
  r_id :: int
  name :: string
  phone :: "string option"
  email :: "string option"
  active :: int

text \<open>
  \<^verbatim>\<open>alerts_sent.channel\<close> and \<^verbatim>\<open>alerts_sent.status\<close> are \<^verbatim>\<open>NOT NULL\<close> text columns
  whose \<^verbatim>\<open>CHECK\<close> constraints admit two and three values: the datatypes below are
  exactly the admitted values.
\<close>

datatype channel = Sms | Email

datatype status = Delivered | Failed | Pending

record alert =
  a_id :: int
  a_game_id :: int
  recipient_id :: int
  channel :: channel
  sent_at :: "string option"
  status :: status

text \<open>
  A database state: every table as the list of its rows in insertion order, and for
  each \<^verbatim>\<open>AUTOINCREMENT\<close> table the largest id it has ever handed out
  (SQLite's \<^verbatim>\<open>sqlite_sequence\<close>).
\<close>

record db =
  tbl_games :: "game list"
  tbl_promotions :: "promotion list"
  tbl_recipients :: "recipient list"
  tbl_alerts_sent :: "alert list"
  seq_games :: int
  seq_promotions :: int
  seq_recipients :: int
  seq_alerts_sent :: int

section \<open>The dashboard's read-only queries (src/lib/db.ts)\<close>

text \<open>
  The TypeScript interface \<^verbatim>\<open>Game\<close>: a row of \<^verbatim>\<open>games\<close> spread into an object that
  also carries its \<^verbatim>\<open>promotions\<close>.
\<close>

record Game = game +
  promotions :: "promotion list"

text \<open>
  \<^verbatim>\<open>SELECT * FROM games WHERE is_home = 1 ORDER BY game_date ASC\<close>, then for every game
  \<^verbatim>\<open>SELECT * FROM promotions WHERE game_id = ?\<close> bound to \<^verbatim>\<open>game.id\<close>.
\<close>

definition getUpcomingGames :: "db \<Rightarrow> Game list" where
  "getUpcomingGames d =
     (let games = sort_key game_date (filter (\<lambda>g. is_home g = 1) (tbl_games d))
      in map (\<lambda>game.
            let promotions = filter (\<lambda>p. game_id p = g_id game) (tbl_promotions d)
            in game.extend game (Game.fields promotions)) games)"

text \<open>The SQL aggregate \<^verbatim>\<open>MAX\<close>: \<^verbatim>\<open>NULL\<close>s are skipped, and no value at all gives \<^verbatim>\<open>NULL\<close>.\<close>

fun sql_max_step :: "string option \<Rightarrow> string option \<Rightarrow> string option" where
  "sql_max_step None acc = acc"
| "sql_max_step (Some t) None = Some t"
| "sql_max_step (Some t) (Some m) = Some (max m t)"

definition sql_MAX :: "string option list \<Rightarrow> string option" where
  "sql_MAX vs = fold sql_max_step vs None"

text \<open>
  \<^verbatim>\<open>SELECT MAX(updated_at) as last_update FROM games\<close>, then \<^verbatim>\<open>row?.last_update || null\<close>:
  an aggregate query always yields its row, and \<^verbatim>\<open>||\<close> replaces the falsy values
  \<^verbatim>\<open>null\<close> and the empty string by \<^verbatim>\<open>null\<close>.
\<close>

definition getSyncStatus :: "db \<Rightarrow> string option" where
  "getSyncStatus d =
     (let last_update = sql_MAX (map updated_at (tbl_games d))
      in case last_update of
           None \<Rightarrow> None
         | Some s \<Rightarrow> if s = [] then None else Some s)"

section \<open>Constraints of the schema\<close>

text \<open>
  What the tables accept. A statement that would break a constraint declared in
  \<^verbatim>\<open>data/schema.sql\<close> fails with an error and leaves the database as it was.
\<close>

datatype sql_error = NOT_NULL_failed | CHECK_failed | UNIQUE_failed | FOREIGN_KEY_failed

text \<open>
  \<^verbatim>\<open>INTEGER PRIMARY KEY AUTOINCREMENT\<close>: a new row gets an id one above the largest id
  the table holds or has ever handed out.
\<close>

definition next_rowid :: "int \<Rightarrow> int list \<Rightarrow> int" where
  "next_rowid seq ids = fold max ids seq + 1"

text \<open>
  \<^verbatim>\<open>promotions.promo_type\<close>:
  \<^verbatim>\<open>CHECK(promo_type IN ('giveaway','fireworks','discount','theme','heritage','special'))\<close>.
\<close>

definition promo_types :: "string list" where
  "promo_types = [''giveaway'', ''fireworks'', ''discount'', ''theme'', ''heritage'', ''special'']"

definition promo_type_check :: "promotion \<Rightarrow> bool" where
  "promo_type_check p \<longleftrightarrow> promo_type p \<in> set promo_types"

text \<open>\<^verbatim>\<open>recipients\<close>: \<^verbatim>\<open>CHECK (phone IS NOT NULL OR email IS NOT NULL)\<close>.\<close>

definition recipients_check :: "recipient \<Rightarrow> bool" where
  "recipients_check r \<longleftrightarrow> phone r \<noteq> None \<or> email r \<noteq> None"

text \<open>
  An \<^verbatim>\<open>INSERT\<close> into \<^verbatim>\<open>recipients\<close> that supplies \<^verbatim>\<open>name\<close>, \<^verbatim>\<open>phone\<close> and \<^verbatim>\<open>email\<close>
  (each possibly \<^verbatim>\<open>NULL\<close>) and leaves \<^verbatim>\<open>id\<close> and \<^verbatim>\<open>active\<close> to their defaults.
\<close>

definition insert_recipient ::
  "db \<Rightarrow> string option \<Rightarrow> string option \<Rightarrow> string option \<Rightarrow> sql_error + db" where
  "insert_recipient d nm ph em =
     (case nm of
        None \<Rightarrow> Inl NOT_NULL_failed
      | Some n \<Rightarrow>
          let i = next_rowid (seq_recipients d) (map r_id (tbl_recipients d));
              r = \<lparr>r_id = i, name = n, phone = ph, email = em, active = 1\<rparr>
          in if \<not> recipients_check r then Inl CHECK_failed
             else Inr (d\<lparr>tbl_recipients := tbl_recipients d @ [r], seq_recipients := i\<rparr>))"

text \<open>
  An \<^verbatim>\<open>UPDATE\<close> of the contact columns of the recipient with the given id. SQLite
  checks every row the statement rewrites.
\<close>

definition update_recipient_contact ::
  "db \<Rightarrow> int \<Rightarrow> string option \<Rightarrow> string option \<Rightarrow> sql_error + db" where
  "update_recipient_contact d i ph em =
     (let rs = map (\<lambda>r. if r_id r = i then r\<lparr>phone := ph, email := em\<rparr> else r)
                 (tbl_recipients d)
      in if \<exists>r \<in> set rs. r_id r = i \<and> \<not> recipients_check r then Inl CHECK_failed
         else Inr (d\<lparr>tbl_recipients := rs\<rparr>))"

section \<open>The promotion badge (dashboard/src/components/PromoBadge.tsx)\<close>

text \<open>
  Strings are byte strings. \<^verbatim>\<open>toLowerCase\<close> maps the letters \<^verbatim>\<open>A\<close> to \<^verbatim>\<open>Z\<close> to
  \<^verbatim>\<open>a\<close> to \<^verbatim>\<open>z\<close> and leaves every other byte as it is: the model covers ASCII
  text, where this is what JavaScript does. \<^verbatim>\<open>includes\<close> is the test for a contiguous
  substring.
\<close>

definition lower_char :: "char \<Rightarrow> char" where
  "lower_char c =
     (case map_of (zip ''ABCDEFGHIJKLMNOPQRSTUVWXYZ'' ''abcdefghijklmnopqrstuvwxyz'') c of
        None \<Rightarrow> c
      | Some l \<Rightarrow> l)"

definition toLowerCase :: "string \<Rightarrow> string" where
  "toLowerCase s = map lower_char s"

primrec str_includes :: "string \<Rightarrow> string \<Rightarrow> bool" where
  "str_includes [] sub = (sub = [])"
| "str_includes (c # cs) sub = (prefix sub (c # cs) \<or> str_includes cs sub)"

text \<open>
  The three icons are the emoji U+26BE (baseball), U+1F381 (wrapped gift) and U+1F386
  (fireworks). A badge is what the component renders: the colour classes, the animation
  class, the icon and the text.
\<close>

datatype icon = Baseball | Gift | Fireworks

record badge =
  bgColor :: string
  textColor :: string
  icon :: icon
  animation :: string
  label :: string

definition PromoBadge :: "string \<Rightarrow> string \<Rightarrow> badge" where
  "PromoBadge ptype descr =
     (let isJersey = str_includes (toLowerCase descr) ''jersey'';
          isFireworks = (str_includes (toLowerCase ptype) ''fireworks'' \<or>
                         str_includes (toLowerCase descr) ''fireworks'');
          b = \<lparr>bgColor = ''bg-slate-100'', textColor = ''text-slate-700'', icon = Baseball,
                animation = [], label = (if isJersey then ''Jersey Giveaway'' else descr)\<rparr>
      in if isJersey then
           b\<lparr>bgColor := ''bg-[#FFD700]'', textColor := ''text-black'', icon := Gift,
             animation := ''animate-pulse shadow-[0_0_15px_rgba(255,215,0,0.5)]''\<rparr>
         else if isFireworks then
           b\<lparr>bgColor := ''bg-[#00FFCC]'', textColor := ''text-black'', icon := Fireworks\<rparr>
         else if toLowerCase ptype = ''giveaway'' then
           b\<lparr>bgColor := ''bg-blue-50'', textColor := ''text-blue-700'', icon := Gift\<rparr>
         else b)"

text \<open>
  \<^verbatim>\<open>GameCard\<close> renders one badge per promotion of the game, from the row's
  \<^verbatim>\<open>promo_type\<close> and \<^verbatim>\<open>description\<close>. The column \<^verbatim>\<open>description\<close> may be \<^verbatim>\<open>NULL\<close>, and
  \<^verbatim>\<open>null.toLowerCase()\<close> throws.
\<close>

datatype js_error = TypeError | SyntaxError

definition promo_badge_of_row :: "promotion \<Rightarrow> js_error + badge" where
  "promo_badge_of_row promo =
     (case description promo of
        None \<Rightarrow> Inl TypeError
      | Some d \<Rightarrow> Inr (PromoBadge (promo_type promo) d))"

section \<open>The signup endpoint (src/app/api/signup/route.ts)\<close>

text \<open>
  A parsed JSON value. Numbers matter only through being zero or not (a zero is falsy),
  so an integer stands for them.
\<close>

datatype json =
  JNull | JBool bool | JNumber int | JString string | JArray "json list"
  | JObject "(string \<times> json) list"

text \<open>
  \<^verbatim>\<open>const { name, phone, email } = value\<close>: destructuring \<^verbatim>\<open>null\<close> throws a TypeError;
  an object gives each property's value, or \<^verbatim>\<open>undefined\<close> (\<open>None\<close>) where it has none
  (of a key that occurs twice, \<^verbatim>\<open>JSON.parse\<close> keeps the last); a string, a number, a
  boolean or an array has none of the three properties.
\<close>

definition property :: "(string \<times> json) list \<Rightarrow> string \<Rightarrow> json option" where
  "property kvs k = map_of (rev kvs) k"

fun destructure :: "json \<Rightarrow> js_error + (json option \<times> json option \<times> json option)" where
  "destructure JNull = Inl TypeError"
| "destructure (JObject kvs) =
     Inr (property kvs ''name'', property kvs ''phone'', property kvs ''email'')"
| "destructure v = Inr (None, None, None)"

text \<open>The values JavaScript treats as false in \<^verbatim>\<open>!v\<close> and \<^verbatim>\<open>v || w\<close>.\<close>

fun falsy :: "json option \<Rightarrow> bool" where
  "falsy None = True"
| "falsy (Some JNull) = True"
| "falsy (Some (JBool b)) = (\<not> b)"
| "falsy (Some (JNumber n)) = (n = 0)"
| "falsy (Some (JString s)) = (s = [])"
| "falsy (Some (JArray vs)) = False"
| "falsy (Some (JObject kvs)) = False"

text \<open>\<^verbatim>\<open>v || ""\<close> on a destructured value.\<close>

fun or_empty :: "json option \<Rightarrow> json" where
  "or_empty None = JString []"
| "or_empty (Some v) = (if falsy (Some v) then JString [] else v)"

text \<open>The three environment variables; an unset or empty variable is falsy.\<close>

record env =
  GITHUB_PAT :: "string option"
  GITHUB_OWNER :: "string option"
  GITHUB_REPO :: "string option"

text \<open>
  The workflow dispatch sent to GitHub, which triggers the registry update: the
  repository in its URL, the bearer token, and the three inputs.
\<close>

record dispatch =
  url_owner :: string
  url_repo :: string
  bearer :: string
  input_name :: json
  input_phone :: json
  input_email :: json

text \<open>What \<^verbatim>\<open>fetch\<close> does: it rejects, or it resolves to a response with a status.\<close>

datatype fetch_result = Rejected | Resolved nat

text \<open>The JSON response of the endpoint: its HTTP status, the \<^verbatim>\<open>success\<close> flag and the text.\<close>

record response =
  http_status :: nat
  success :: bool
  detail :: string

text \<open>
  \<^verbatim>\<open>POST\<close>, with the request body as \<^verbatim>\<open>request.json()\<close> parses it (\<open>None\<close> when the body
  is not JSON and the call rejects) and \<^verbatim>\<open>fetch\<close> as a parameter. The result is the
  response together with the dispatches sent. Every exception inside \<^verbatim>\<open>try\<close> ends in
  the \<^verbatim>\<open>catch\<close> branch, which answers 500: the rejected \<^verbatim>\<open>request.json()\<close>, the
  destructuring of \<^verbatim>\<open>null\<close>, the rejected \<^verbatim>\<open>fetch\<close>, and \<^verbatim>\<open>NextResponse.json\<close> where it
  is given an upstream status that a response with a body cannot have (one outside 200
  to 599, or 304). Where the dispatch is built \<^verbatim>\<open>name\<close> is truthy, hence defined.
\<close>

definition internal_error :: response where
  "internal_error = \<lparr>http_status = 500, success = False, detail = ''Internal server error''\<rparr>"

definition POST ::
  "env \<Rightarrow> (dispatch \<Rightarrow> fetch_result) \<Rightarrow> json option \<Rightarrow> response \<times> dispatch list" where
  "POST e fetch body =
     (case body of
        None \<Rightarrow> (internal_error, [])
      | Some v \<Rightarrow>
         (case destructure v of
            Inl err \<Rightarrow> (internal_error, [])
          | Inr (name', phone', email') \<Rightarrow>
              if falsy name' \<or> (falsy phone' \<and> falsy email') then
                (\<lparr>http_status = 400, success = False,
                   detail = ''Name and at least one contact method required''\<rparr>, [])
              else
                (case (GITHUB_PAT e, GITHUB_OWNER e, GITHUB_REPO e) of
                   (Some githubToken, Some repoOwner, Some repoName) \<Rightarrow>
                     if githubToken = [] \<or> repoOwner = [] \<or> repoName = [] then
                       (\<lparr>http_status = 500, success = False,
                          detail = ''Server configuration error''\<rparr>, [])
                     else
                       let req = \<lparr>url_owner = repoOwner, url_repo = repoName,
                                    bearer = githubToken, input_name = (case name' of Some n \<Rightarrow> n | None \<Rightarrow> JNull),
                                    input_phone = or_empty phone', input_email = or_empty email'\<rparr>
                       in (case fetch req of
                             Rejected \<Rightarrow> (internal_error, [req])
                           | Resolved st \<Rightarrow>
                               if (200 \<le> st \<and> st \<le> 299) \<or> st = 204 then
                                 (\<lparr>http_status = 200, success = True,
                                    detail = ''Signup processing''\<rparr>, [req])
                               else if st < 200 \<or> 599 < st \<or> st = 304 then
                                 (internal_error, [req])
                               else
                                 (\<lparr>http_status = st, success = False,
                                    detail = ''Failed to trigger signup''\<rparr>, [req]))
                 | _ \<Rightarrow>
                     (\<lparr>http_status = 500, success = False,
                        detail = ''Server configuration error''\<rparr>, []))))"

text \<open>The answer to a request without a name or without any contact.\<close>

definition bad_request :: response where
  "bad_request = \<lparr>http_status = 400, success = False,
     detail = ''Name and at least one contact method required''\<rparr>"

text \<open>
  What a request carries: the \<^verbatim>\<open>name\<close>, \<^verbatim>\<open>phone\<close> and \<^verbatim>\<open>email\<close> of its body, each
  \<open>None\<close> where the body has none. A body that is not JSON, \<^verbatim>\<open>null\<close>, or any value
  other than an object carries none of the three. The request is malformed when the
  name is missing (or otherwise falsy) or both phone and email are.
\<close>

definition request_fields :: "json option \<Rightarrow> json option \<times> json option \<times> json option" where
  "request_fields body =
     (case body of
        None \<Rightarrow> (None, None, None)
      | Some JNull \<Rightarrow> (None, None, None)
      | Some (JObject kvs) \<Rightarrow> (property kvs ''name'', property kvs ''phone'', property kvs ''email'')
      | Some v \<Rightarrow> (None, None, None))"

definition malformed :: "json option \<Rightarrow> bool" where
  "malformed body \<longleftrightarrow>
     (case request_fields body of (n, p, e) \<Rightarrow> falsy n \<or> (falsy p \<and> falsy e))"

section \<open>Foreign keys and the delivery audit table\<close>

text \<open>
  The constraints are taken as declared and enforced (foreign keys included, which
  SQLite enforces on a connection that has turned them on).

  \<^verbatim>\<open>alerts_sent\<close>: \<^verbatim>\<open>game_id\<close> references \<^verbatim>\<open>games(id)\<close>, \<^verbatim>\<open>recipient_id\<close> references
  \<^verbatim>\<open>recipients(id)\<close>, and \<^verbatim>\<open>UNIQUE(game_id, recipient_id, channel)\<close>. The key of a row
  is that triple.
\<close>

type_synonym triple = "int \<times> int \<times> channel"

definition alert_key :: "alert \<Rightarrow> triple" where
  "alert_key a = (a_game_id a, recipient_id a, channel a)"

definition insert_alert ::
  "db \<Rightarrow> triple \<Rightarrow> string option \<Rightarrow> status \<Rightarrow> sql_error + db" where
  "insert_alert d t ts st =
     (case t of (g, r, c) \<Rightarrow>
        if t \<in> set (map alert_key (tbl_alerts_sent d)) then Inl UNIQUE_failed
        else if g \<notin> set (map g_id (tbl_games d)) \<or> r \<notin> set (map r_id (tbl_recipients d))
        then Inl FOREIGN_KEY_failed
        else
          let i = next_rowid (seq_alerts_sent d) (map a_id (tbl_alerts_sent d));
              a = \<lparr>a_id = i, a_game_id = g, recipient_id = r, channel = c, sent_at = ts,
                   status = st\<rparr>
          in Inr (d\<lparr>tbl_alerts_sent := tbl_alerts_sent d @ [a], seq_alerts_sent := i\<rparr>))"

text \<open>
  \<^verbatim>\<open>promotions.game_id\<close> is declared \<^verbatim>\<open>REFERENCES games(id) ON DELETE CASCADE\<close>, and
  \<^verbatim>\<open>alerts_sent.game_id\<close> references \<^verbatim>\<open>games(id)\<close> with no action. So
  \<^verbatim>\<open>DELETE FROM games WHERE id = ?\<close> is refused while an audit row refers to the game,
  and otherwise removes the game together with all its promotions. Where no game has
  the id, the statement deletes nothing.
\<close>

definition delete_game :: "db \<Rightarrow> int \<Rightarrow> sql_error + db" where
  "delete_game d gid =
     (if gid \<notin> set (map g_id (tbl_games d)) then Inr d
      else if gid \<in> set (map a_game_id (tbl_alerts_sent d)) then Inl FOREIGN_KEY_failed
      else Inr (d\<lparr>tbl_games := filter (\<lambda>g. g_id g \<noteq> gid) (tbl_games d),
                  tbl_promotions := filter (\<lambda>p. game_id p \<noteq> gid) (tbl_promotions d)\<rparr>))"

text \<open>An \<^verbatim>\<open>INSERT\<close> into \<^verbatim>\<open>promotions\<close> of a type and a description for a game.\<close>

definition insert_promotion ::
  "string \<Rightarrow> int \<Rightarrow> db \<Rightarrow> string \<times> string \<Rightarrow> sql_error + db" where
  "insert_promotion now gid d td =
     (let i = next_rowid (seq_promotions d) (map p_id (tbl_promotions d));
          p = \<lparr>p_id = i, game_id = gid, promo_type = fst td, description = Some (snd td),
               p_updated_at = Some now\<rparr>
      in if \<not> promo_type_check p then Inl CHECK_failed
         else if gid \<notin> set (map g_id (tbl_games d)) then Inl FOREIGN_KEY_failed
         else Inr (d\<lparr>tbl_promotions := tbl_promotions d @ [p], seq_promotions := i\<rparr>))"

text \<open>No promotion without its game.\<close>

definition no_orphans :: "db \<Rightarrow> bool" where
  "no_orphans d \<longleftrightarrow> (\<forall>p \<in> set (tbl_promotions d). game_id p \<in> set (map g_id (tbl_games d)))"

section \<open>The promotion ingestor's replace step\<close>

text \<open>
  Modelled from the spec: \<^verbatim>\<open>upsert_promotions(conn, game_id, promo_list)\<close> of
  \<^verbatim>\<open>scraper/db.py\<close> is not among the sources; only its contract is ("Replaces all
  promotions for a specific game ID"). The spec: for a given game, delete all existing
  Promotion rows and insert the freshly parsed set, as one atomic replacement. An insert
  that the store refuses fails the whole replacement. The two definitions below are its
  two halves.
\<close>

text \<open>
  Modelled from the spec: the insert half of the replacement, "insert the freshly parsed
  set", one (type, description) pair after the other.
\<close>

fun insert_promotions ::
  "string \<Rightarrow> int \<Rightarrow> db \<Rightarrow> (string \<times> string) list \<Rightarrow> sql_error + db" where
  "insert_promotions now gid d [] = Inr d"
| "insert_promotions now gid d (td # tds) =
     (case insert_promotion now gid d td of
        Inl e \<Rightarrow> Inl e
      | Inr d' \<Rightarrow> insert_promotions now gid d' tds)"

text \<open>
  Modelled from the spec: \<^verbatim>\<open>upsert_promotions\<close>, "delete all existing Promotion rows" of
  the game, then the inserts.
\<close>

definition upsert_promotions ::
  "string \<Rightarrow> db \<Rightarrow> int \<Rightarrow> (string \<times> string) list \<Rightarrow> sql_error + db" where
  "upsert_promotions now d gid promo_list =
     insert_promotions now gid
       (d\<lparr>tbl_promotions := filter (\<lambda>p. game_id p \<noteq> gid) (tbl_promotions d)\<rparr>) promo_list"

section \<open>The delivery dispatcher\<close>

text \<open>
  Modelled from the spec: the dispatcher (\<^verbatim>\<open>alerts/main.py\<close>) is not among the sources.
  The spec: for each qualifying game, for each active recipient, for each channel the
  recipient has a destination for (phone for sms, email for email), check whether a
  delivery record exists for the triple with status "delivered"; if so, skip. Otherwise
  invoke the channel's provider; on success write or update the record with status
  "delivered" and the current timestamp; on failure write status "failed" and go on to
  the next triple. Before any of this, a run checks that the data is fresh, and is
  aborted when it is stale.

  The provider is outside the system: its verdict is an arbitrary function of the number
  of invocations made before and of the triple. The state a run threads is the database
  and the log of provider invocations, each with its verdict.
\<close>

type_synonym invocation = "triple \<times> bool"

text \<open>
  Modelled from the spec: "a DeliveryRecord already exists for (game, recipient, channel)
  with status delivered".
\<close>

definition delivered :: "db \<Rightarrow> triple \<Rightarrow> bool" where
  "delivered d t \<longleftrightarrow> (\<exists>a \<in> set (tbl_alerts_sent d). alert_key a = t \<and> status a = Delivered)"

text \<open>
  Modelled from the spec: "write/update a DeliveryRecord": the record of the triple is
  "created on first attempt", and its "status may be updated on retry but never
  duplicated".
\<close>

definition write_delivery :: "db \<Rightarrow> triple \<Rightarrow> status \<Rightarrow> string \<Rightarrow> sql_error + db" where
  "write_delivery d t st now =
     (if t \<in> set (map alert_key (tbl_alerts_sent d)) then
        Inr (d\<lparr>tbl_alerts_sent :=
                 map (\<lambda>a. if alert_key a = t then a\<lparr>status := st, sent_at := Some now\<rparr> else a)
                   (tbl_alerts_sent d)\<rparr>)
      else insert_alert d t (Some now) st)"

text \<open>
  Modelled from the spec: the dispatcher's step for one triple. The provider's failure is
  a verdict, not an error; only a write the store refuses is one.
\<close>

definition dispatch_triple ::
  "(nat \<Rightarrow> triple \<Rightarrow> bool) \<Rightarrow> string \<Rightarrow> db \<times> invocation list \<Rightarrow> triple
     \<Rightarrow> sql_error + db \<times> invocation list" where
  "dispatch_triple provider now s t =
     (case s of (d, log) \<Rightarrow>
        if delivered d t then Inr (d, log)
        else
          let ok = provider (length log) t
          in case write_delivery d t (if ok then Delivered else Failed) now of
               Inl e \<Rightarrow> Inl e
             | Inr d' \<Rightarrow> Inr (d', log @ [(t, ok)]))"

text \<open>Modelled from the spec: the dispatcher's loop, "continue to the next triple".\<close>

fun dispatch_all ::
  "(nat \<Rightarrow> triple \<Rightarrow> bool) \<Rightarrow> string \<Rightarrow> db \<times> invocation list \<Rightarrow> triple list
     \<Rightarrow> sql_error + db \<times> invocation list" where
  "dispatch_all provider now s [] = Inr s"
| "dispatch_all provider now s (t # ts) =
     (case dispatch_triple provider now s t of
        Inl e \<Rightarrow> Inl e
      | Inr s' \<Rightarrow> dispatch_all provider now s' ts)"

text \<open>
  Modelled from the spec: "each channel the recipient has a destination for (phone to
  sms, email to email)".
\<close>

definition channels_of :: "recipient \<Rightarrow> channel list" where
  "channels_of r = (if phone r \<noteq> None then [Sms] else []) @ (if email r \<noteq> None then [Email] else [])"

text \<open>
  Modelled from the spec: the triples of a run, "for each qualifying game, for each
  active Recipient, for each channel"; a recipient is active when \<^verbatim>\<open>active = 1\<close>.
\<close>

definition delivery_triples :: "game list \<Rightarrow> recipient list \<Rightarrow> triple list" where
  "delivery_triples qualifying rs =
     concat (map (\<lambda>g.
       concat (map (\<lambda>r. map (\<lambda>c. (g_id g, r_id r, c)) (channels_of r))
                 (filter (\<lambda>r. active r = 1) rs)))
       qualifying)"

text \<open>
  Modelled from the spec: the data-freshness guard (\<^verbatim>\<open>check_data_freshness(conn)\<close> of
  \<^verbatim>\<open>alerts/engine.py\<close> is not among the sources). The spec: before dispatching, verify
  that the store's last-sync timestamp, the greatest last-modified over all games, is
  recent; the threshold is a configurable parameter. The run is given the cutoff, the
  current time less the configured number of hours, as a timestamp: the data is fresh
  when the last sync is not older than the cutoff, and a store that was never synced
  is stale.
\<close>

definition data_is_fresh :: "db \<Rightarrow> string \<Rightarrow> bool" where
  "data_is_fresh d cutoff \<longleftrightarrow>
     (case getSyncStatus d of None \<Rightarrow> False | Some last_sync \<Rightarrow> cutoff \<le> last_sync)"

text \<open>
  Modelled from the spec: how a run can end without a result: the data-freshness
  failure, fatal for the whole run, or a write the store refuses.
\<close>

datatype run_error = DataFreshnessFailure | StoreError sql_error

text \<open>
  Modelled from the spec: one run of the dispatcher on the qualifying games the selector
  handed it and the recipients of the store. On stale data the run is aborted before any
  triple is looked at: no provider is invoked and no record is written.
\<close>

definition run_dispatcher ::
  "(nat \<Rightarrow> triple \<Rightarrow> bool) \<Rightarrow> string \<Rightarrow> string \<Rightarrow> game list \<Rightarrow> db \<times> invocation list
     \<Rightarrow> run_error + db \<times> invocation list" where
  "run_dispatcher provider now cutoff qualifying s =
     (if \<not> data_is_fresh (fst s) cutoff then Inl DataFreshnessFailure
      else
        case dispatch_all provider now s (delivery_triples qualifying (tbl_recipients (fst s))) of
          Inl e \<Rightarrow> Inl (StoreError e)
        | Inr s' \<Rightarrow> Inr s')"

text \<open>
  Modelled from the spec: the scheduled runs, one after the other, each with its own
  time, cutoff and qualifying games. A run aborted on stale data leaves store and log as
  they were, and the next scheduled run takes place.
\<close>

type_synonym scheduled_run = "string \<times> string \<times> game list"

fun dispatcher_runs ::
  "(nat \<Rightarrow> triple \<Rightarrow> bool) \<Rightarrow> scheduled_run list \<Rightarrow> db \<times> invocation list
     \<Rightarrow> run_error + db \<times> invocation list" where
  "dispatcher_runs provider [] s = Inr s"
| "dispatcher_runs provider (run # runs) s =
     (case run_dispatcher provider (fst run) (fst (snd run)) (snd (snd run)) s of
        Inl DataFreshnessFailure \<Rightarrow> dispatcher_runs provider runs s
      | Inl (StoreError e) \<Rightarrow> Inl (StoreError e)
      | Inr s' \<Rightarrow> dispatcher_runs provider runs s')"

section \<open>Notions used to state the dispatcher's properties\<close>

text \<open>The audit table holds a row for the triple with the given status.\<close>

definition recorded :: "db \<Rightarrow> triple \<Rightarrow> status \<Rightarrow> bool" where
  "recorded d t s \<longleftrightarrow> (\<exists>a \<in> set (tbl_alerts_sent d). alert_key a = t \<and> status a = s)"

text \<open>An audit row for the triple would satisfy both foreign keys.\<close>

definition fk_ok :: "db \<Rightarrow> triple \<Rightarrow> bool" where
  "fk_ok d t \<longleftrightarrow> fst t \<in> set (map g_id (tbl_games d)) \<and> fst (snd t) \<in> set (map r_id (tbl_recipients d))"

text \<open>
  What holds of the store and the invocation log throughout, relative to the store \<open>d0\<close>
  the dispatcher started from: the audit table's keys are distinct, no triple has two
  successful invocations, every successful invocation is recorded as delivered, what was
  delivered stays delivered, nothing delivered in \<open>d0\<close> has been invoked, and the games
  and recipients are untouched.
\<close>

definition dispatcher_inv :: "db \<Rightarrow> db \<times> invocation list \<Rightarrow> bool" where
  "dispatcher_inv d0 s \<longleftrightarrow>
     distinct (map alert_key (tbl_alerts_sent (fst s))) \<and>
     distinct (map fst (filter snd (snd s))) \<and>
     (\<forall>t. (t, True) \<in> set (snd s) \<longrightarrow> delivered (fst s) t) \<and>
     (\<forall>t. delivered d0 t \<longrightarrow> delivered (fst s) t) \<and>
     (\<forall>t ok. (t, ok) \<in> set (snd s) \<longrightarrow> \<not> delivered d0 t) \<and>
     tbl_games (fst s) = tbl_games d0 \<and> tbl_recipients (fst s) = tbl_recipients d0"

section \<open>Example states\<close>

text \<open>A small store: two home games, one away game, two promotions.\<close>

definition ex_games :: "game list" where
  "ex_games =
    [\<lparr>g_id = 1, game_date = ''2025-06-07'', day_of_week = ''Saturday'',
       start_time = Some ''6:10 PM'', opponent = ''Portland Sea Dogs'', is_home = 1,
       ticket_url = None, updated_at = Some ''2025-06-01 08:00:00''\<rparr>,
     \<lparr>g_id = 2, game_date = ''2025-06-04'', day_of_week = ''Wednesday'',
       start_time = None, opponent = ''Binghamton Rumble Ponies'', is_home = 0,
       ticket_url = None, updated_at = Some ''2025-06-02 08:00:00''\<rparr>,
     \<lparr>g_id = 3, game_date = ''2025-06-06'', day_of_week = ''Friday'',
       start_time = Some ''7:10 PM'', opponent = ''Portland Sea Dogs'', is_home = 1,
       ticket_url = None, updated_at = None\<rparr>]"

definition ex_promotions :: "promotion list" where
  "ex_promotions =
    [\<lparr>p_id = 1, game_id = 3, promo_type = ''giveaway'',
       description = Some ''Los Chivos Jersey Night'', p_updated_at = None\<rparr>,
     \<lparr>p_id = 2, game_id = 2, promo_type = ''fireworks'',
       description = Some ''Friday Fireworks'', p_updated_at = None\<rparr>]"

definition ex_db :: db where
  "ex_db = \<lparr>tbl_games = ex_games, tbl_promotions = ex_promotions, tbl_recipients = [],
     tbl_alerts_sent = [], seq_games = 3, seq_promotions = 2, seq_recipients = 0,
     seq_alerts_sent = 0\<rparr>"

text \<open>The same store after the third game's row was rewritten a day later.\<close>

definition ex_db_touched :: db where
  "ex_db_touched = ex_db\<lparr>tbl_games :=
     (tbl_games ex_db)[2 := (tbl_games ex_db ! 2)\<lparr>updated_at := Some ''2025-06-03 08:00:00''\<rparr>]\<rparr>"

text \<open>An environment with all three variables set, and two request bodies.\<close>

definition ex_env :: env where
  "ex_env = \<lparr>GITHUB_PAT = Some ''token'', GITHUB_OWNER = Some ''owner'', GITHUB_REPO = Some ''repo''\<rparr>"

definition ex_body_no_contact :: json where
  "ex_body_no_contact = JObject [(''name'', JString ''Hartford Fan''), (''phone'', JString []), (''email'', JNull)]"

definition ex_body_ok :: json where
  "ex_body_ok = JObject [(''name'', JString ''Hartford Fan''), (''phone'', JString ''+18605550001'')]"

text \<open>
  The store with three recipients (the third inactive), every game last synced on the
  morning of June 1; the Friday home game as the only qualifying game; a provider that
  refuses every sms to the first recipient; and three runs with a threshold of 48 hours:
  two a day apart on fresh data, and one three days later, when the data is stale.
\<close>

definition ex_recipients :: "recipient list" where
  "ex_recipients =
    [\<lparr>r_id = 1, name = ''Ana'', phone = Some ''+18605550001'', email = None, active = 1\<rparr>,
     \<lparr>r_id = 2, name = ''Ben'', phone = Some ''+18605550002'',
       email = Some ''ben@example.com'', active = 1\<rparr>,
     \<lparr>r_id = 3, name = ''Cy'', phone = Some ''+18605550003'', email = None, active = 0\<rparr>]"

definition ex_store :: db where
  "ex_store = ex_db\<lparr>tbl_games := map (\<lambda>g. g\<lparr>updated_at := Some ''2025-06-01 06:00:00''\<rparr>) ex_games,
     tbl_recipients := ex_recipients, seq_recipients := 3\<rparr>"

definition ex_qualifying :: "game list" where
  "ex_qualifying = [ex_games ! 2]"

definition ex_provider :: "nat \<Rightarrow> triple \<Rightarrow> bool" where
  "ex_provider n t = (t \<noteq> (3, 1, Sms))"

definition ex_runs :: "scheduled_run list" where
  "ex_runs =
    [(''2025-06-01 09:00:00'', ''2025-05-30 09:00:00'', ex_qualifying),
     (''2025-06-02 09:00:00'', ''2025-05-31 09:00:00'', ex_qualifying),
     (''2025-06-05 09:00:00'', ''2025-06-03 09:00:00'', ex_qualifying)]"


text \<open>The example store and log after the first of the three runs.\<close>

definition ex_after_first_run :: "db \<times> invocation list" where
  "ex_after_first_run =
     (ex_store\<lparr>tbl_alerts_sent :=
        [\<lparr>a_id = 1, a_game_id = 3, recipient_id = 1, channel = Sms,
           sent_at = Some ''2025-06-01 09:00:00'', status = Failed\<rparr>,
         \<lparr>a_id = 2, a_game_id = 3, recipient_id = 2, channel = Sms,
           sent_at = Some ''2025-06-01 09:00:00'', status = Delivered\<rparr>,
         \<lparr>a_id = 3, a_game_id = 3, recipient_id = 2, channel = Email,
           sent_at = Some ''2025-06-01 09:00:00'', status = Delivered\<rparr>],
        seq_alerts_sent := 3\<rparr>,
      [((3, 1, Sms), False), ((3, 2, Sms), True), ((3, 2, Email), True)])"

section \<open>Properties of the dashboard's queries\<close>

lemma sql_MAX_fold_None:
  "fold sql_max_step vs acc = None \<longleftrightarrow> acc = None \<and> (\<forall>v \<in> set vs. v = None)"
proof (induction vs arbitrary: acc)
  case Nil
  show ?case by simp
next
  case (Cons v vs)
  show ?case
  proof (cases v)
    case None
    then show ?thesis using Cons.IH [of acc] by simp
  next
    case (Some t)
    then show ?thesis using Cons.IH [of "sql_max_step (Some t) acc"]
      by (cases acc) simp_all
  qed
qed

lemma sql_MAX_fold_Some:
  "fold sql_max_step vs acc = Some m \<Longrightarrow>
     (acc = Some m \<or> Some m \<in> set vs) \<and>
     (\<forall>t. acc = Some t \<longrightarrow> t \<le> m) \<and> (\<forall>t. Some t \<in> set vs \<longrightarrow> t \<le> m)"
proof (induction vs arbitrary: acc)
  case Nil
  then show ?case by simp
next
  case (Cons v vs)
  show ?case
  proof (cases v)
    case None
    then show ?thesis using Cons.IH [of acc] Cons.prems by auto
  next
    case (Some t)
    note v = this
    show ?thesis
    proof (cases acc)
      case None
      then show ?thesis using Cons.IH [of "Some t"] Cons.prems v by auto
    next
      case (Some a)
      then have "fold sql_max_step vs (Some (max a t)) = Some m"
        using Cons.prems v by simp
      from Cons.IH [OF this] Some v show ?thesis
        by (auto simp: max_def split: if_splits)
    qed
  qed
qed

lemma sql_MAX_None: "sql_MAX vs = None \<longleftrightarrow> (\<forall>v \<in> set vs. v = None)"
  by (simp add: sql_MAX_def sql_MAX_fold_None)

lemma sql_MAX_Some:
  "sql_MAX vs = Some m \<Longrightarrow> Some m \<in> set vs \<and> (\<forall>t. Some t \<in> set vs \<longrightarrow> t \<le> m)"
  using sql_MAX_fold_Some [of vs None m] by (simp add: sql_MAX_def)

lemma sql_MAX_greatest:
  assumes "Some m \<in> set vs" and "\<forall>t. Some t \<in> set vs \<longrightarrow> t \<le> m"
  shows "sql_MAX vs = Some m"
proof (cases "sql_MAX vs")
  case None
  then show ?thesis using assms(1) by (auto simp: sql_MAX_None)
next
  case (Some m')
  from sql_MAX_Some [OF this] assms have "m' \<le> m" and "m \<le> m'" by auto
  then show ?thesis using Some by simp
qed


lemma getSyncStatus_None:
  assumes "\<forall>g\<in>set (tbl_games d). updated_at g \<noteq> Some []"
  shows "getSyncStatus d = None \<longleftrightarrow> (\<forall>g\<in>set (tbl_games d). updated_at g = None)"
proof (cases "sql_MAX (map updated_at (tbl_games d))")
  case None
  have "getSyncStatus d = None"
    using None by (simp add: getSyncStatus_def)
  moreover have "\<forall>g\<in>set (tbl_games d). updated_at g = None"
    using None by (simp add: sql_MAX_None)
  ultimately show ?thesis by simp
next
  case (Some s)
  from sql_MAX_Some [OF this] obtain g where g: "g \<in> set (tbl_games d)" "updated_at g = Some s"
    by auto
  with assms have "s \<noteq> []" by auto
  then show ?thesis using Some g by (auto simp: getSyncStatus_def Let_def)
qed

lemma getSyncStatus_Some:
  assumes "\<forall>g\<in>set (tbl_games d). updated_at g \<noteq> Some []"
  shows "getSyncStatus d = Some m \<longleftrightarrow>
     (\<exists>g\<in>set (tbl_games d). updated_at g = Some m) \<and>
     (\<forall>g\<in>set (tbl_games d). \<forall>t. updated_at g = Some t \<longrightarrow> t \<le> m)"
    (is "?L \<longleftrightarrow> ?R")
proof
  assume ?L
  then have "sql_MAX (map updated_at (tbl_games d)) = Some m"
    by (auto simp: getSyncStatus_def Let_def split: option.splits if_splits)
  from sql_MAX_Some [OF this] show ?R by (auto simp: image_iff) metis
next
  assume R: ?R
  then have "Some m \<in> set (map updated_at (tbl_games d))"
    and "\<forall>t. Some t \<in> set (map updated_at (tbl_games d)) \<longrightarrow> t \<le> m"
    by force+
  then have "sql_MAX (map updated_at (tbl_games d)) = Some m"
    by (rule sql_MAX_greatest)
  moreover have "m \<noteq> []" using R assms by auto
  ultimately show ?L by (simp add: getSyncStatus_def Let_def)
qed

text \<open>
  Claim C8. The "last successful sync" signal is the greatest \<^verbatim>\<open>updated_at\<close> over all
  rows of \<^verbatim>\<open>games\<close>: \<open>getSyncStatus\<close> answers \<^verbatim>\<open>null\<close> exactly when no row has a
  timestamp, and otherwise the timestamp of some row that no row's timestamp exceeds.
  The value follows ingestion: when a later state \<open>d'\<close> holds every game either as it
  was in \<open>d\<close> or stamped \<open>now\<close>, at least one game is stamped \<open>now\<close>, and \<open>now\<close> is not
  older than any timestamp of \<open>d\<close>, then \<open>getSyncStatus d'\<close> is \<open>now\<close>, which is not
  older than \<open>getSyncStatus d\<close>. Timestamps are non-empty text (the empty text is falsy
  in JavaScript, and \<^verbatim>\<open>||\<close> would turn it into \<^verbatim>\<open>null\<close>).
\<close>

theorem getSyncStatus_max_updated_at:
  assumes "\<forall>g\<in>set (tbl_games d). updated_at g \<noteq> Some []"
  shows "(getSyncStatus d = None \<longleftrightarrow> (\<forall>g\<in>set (tbl_games d). updated_at g = None)) \<and>
    (\<forall>m. getSyncStatus d = Some m \<longleftrightarrow>
       (\<exists>g\<in>set (tbl_games d). updated_at g = Some m) \<and>
       (\<forall>g\<in>set (tbl_games d). \<forall>t. updated_at g = Some t \<longrightarrow> t \<le> m)) \<and>
    (\<forall>(d'::db) now. now \<noteq> [] \<and>
       (\<forall>g\<in>set (tbl_games d). \<forall>t. updated_at g = Some t \<longrightarrow> t \<le> now) \<and>
       (\<exists>g\<in>set (tbl_games d'). updated_at g = Some now) \<and>
       (\<forall>g\<in>set (tbl_games d'). g \<in> set (tbl_games d) \<or> updated_at g = Some now)
       \<longrightarrow> getSyncStatus d' = Some now \<and> (\<forall>m. getSyncStatus d = Some m \<longrightarrow> m \<le> now))"
proof (intro conjI allI impI)
  show "getSyncStatus d = None \<longleftrightarrow> (\<forall>g\<in>set (tbl_games d). updated_at g = None)"
    by (rule getSyncStatus_None [OF assms])
next
  fix m
  show "getSyncStatus d = Some m \<longleftrightarrow>
       (\<exists>g\<in>set (tbl_games d). updated_at g = Some m) \<and>
       (\<forall>g\<in>set (tbl_games d). \<forall>t. updated_at g = Some t \<longrightarrow> t \<le> m)"
    by (rule getSyncStatus_Some [OF assms])
next
  fix d' :: db and now :: string
  assume h: "now \<noteq> [] \<and>
       (\<forall>g\<in>set (tbl_games d). \<forall>t. updated_at g = Some t \<longrightarrow> t \<le> now) \<and>
       (\<exists>g\<in>set (tbl_games d'). updated_at g = Some now) \<and>
       (\<forall>g\<in>set (tbl_games d'). g \<in> set (tbl_games d) \<or> updated_at g = Some now)"
  have ne: "\<forall>g\<in>set (tbl_games d'). updated_at g \<noteq> Some []"
    using h assms by auto
  have "(\<exists>g\<in>set (tbl_games d'). updated_at g = Some now) \<and>
     (\<forall>g\<in>set (tbl_games d'). \<forall>t. updated_at g = Some t \<longrightarrow> t \<le> now)"
    using h by auto
  then show "getSyncStatus d' = Some now"
    using getSyncStatus_Some [OF ne, of now] by blast
next
  fix d' :: db and now m :: string
  assume h: "now \<noteq> [] \<and>
       (\<forall>g\<in>set (tbl_games d). \<forall>t. updated_at g = Some t \<longrightarrow> t \<le> now) \<and>
       (\<exists>g\<in>set (tbl_games d'). updated_at g = Some now) \<and>
       (\<forall>g\<in>set (tbl_games d'). g \<in> set (tbl_games d) \<or> updated_at g = Some now)"
    and m: "getSyncStatus d = Some m"
  from m have "\<exists>g\<in>set (tbl_games d). updated_at g = Some m"
    using getSyncStatus_Some [OF assms, of m] by blast
  with h show "m \<le> now" by auto
qed

theorem getSyncStatus_max_updated_at_witness:
  "getSyncStatus ex_db = Some ''2025-06-02 08:00:00'' \<and>
   getSyncStatus ex_db_touched = Some ''2025-06-03 08:00:00''"
proof -
  have h: "\<forall>g\<in>set (tbl_games ex_db). updated_at g \<noteq> Some []"
    by (simp add: ex_db_def ex_games_def)
  note T = getSyncStatus_max_updated_at [OF h]
  have a: "(\<exists>g\<in>set (tbl_games ex_db). updated_at g = Some ''2025-06-02 08:00:00'') \<and>
       (\<forall>g\<in>set (tbl_games ex_db). \<forall>t. updated_at g = Some t \<longrightarrow> t \<le> ''2025-06-02 08:00:00'')"
    by (simp add: ex_db_def ex_games_def)
  have b: "''2025-06-03 08:00:00'' \<noteq> [] \<and>
       (\<forall>g\<in>set (tbl_games ex_db). \<forall>t. updated_at g = Some t \<longrightarrow> t \<le> ''2025-06-03 08:00:00'') \<and>
       (\<exists>g\<in>set (tbl_games ex_db_touched). updated_at g = Some ''2025-06-03 08:00:00'') \<and>
       (\<forall>g\<in>set (tbl_games ex_db_touched).
           g \<in> set (tbl_games ex_db) \<or> updated_at g = Some ''2025-06-03 08:00:00'')"
    by (simp add: ex_db_touched_def ex_db_def ex_games_def)
  from T a have "getSyncStatus ex_db = Some ''2025-06-02 08:00:00''" by blast
  moreover from T b have "getSyncStatus ex_db_touched = Some ''2025-06-03 08:00:00''" by blast
  ultimately show ?thesis by simp
qed


lemma truncate_extend [simp]: "game.truncate (game.extend g (Game.fields ps)) = g"
  by (simp add: game.truncate_def game.extend_def Game.defs)

lemma sel_extend [simp]:
  "g_id (game.extend g (Game.fields ps)) = g_id g"
  "game_date (game.extend g (Game.fields ps)) = game_date g"
  "is_home (game.extend g (Game.fields ps)) = is_home g"
  "promotions (game.extend g (Game.fields ps)) = ps"
  by (simp_all add: game.extend_def Game.defs)

text \<open>
  Claim C10. For every database state, \<open>getUpcomingGames\<close> returns exactly the rows of
  \<^verbatim>\<open>games\<close> with \<^verbatim>\<open>is_home = 1\<close> (as a multiset: each such row once per occurrence, and
  no other row), in ascending order of \<^verbatim>\<open>game_date\<close>; every returned game carries
  exactly the rows of \<^verbatim>\<open>promotions\<close> whose \<^verbatim>\<open>game_id\<close> is the game's \<^verbatim>\<open>id\<close>; and a game
  whose \<^verbatim>\<open>is_home\<close> is not 1, so in particular one with \<^verbatim>\<open>is_home = 0\<close>, is not returned.
\<close>

theorem getUpcomingGames_home_sorted_with_promotions:
  "mset (map game.truncate (getUpcomingGames d)) = filter_mset (\<lambda>g. is_home g = 1) (mset (tbl_games d))
   \<and> sorted (map game_date (getUpcomingGames d))
   \<and> (\<forall>G \<in> set (getUpcomingGames d).
         promotions G = filter (\<lambda>p. game_id p = g_id G) (tbl_promotions d))
   \<and> (\<forall>G \<in> set (getUpcomingGames d). is_home G = 1)"
proof -
  let ?hs = "sort_key game_date (filter (\<lambda>g. is_home g = 1) (tbl_games d))"
  let ?f = "\<lambda>game. game.extend game (Game.fields (filter (\<lambda>p. game_id p = g_id game) (tbl_promotions d)))"
  have eq: "getUpcomingGames d = map ?f ?hs"
    by (simp add: getUpcomingGames_def Let_def)
  have tr: "map game.truncate (getUpcomingGames d) = ?hs"
    by (simp add: eq o_def)
  have dates: "map game_date (getUpcomingGames d) = map game_date ?hs"
    by (simp add: eq o_def)
  have 1: "mset (map game.truncate (getUpcomingGames d)) = filter_mset (\<lambda>g. is_home g = 1) (mset (tbl_games d))"
    by (simp add: tr)
  have 2: "sorted (map game_date (getUpcomingGames d))"
    by (simp add: dates)
  have 3: "\<forall>G \<in> set (getUpcomingGames d).
         promotions G = filter (\<lambda>p. game_id p = g_id G) (tbl_promotions d)"
    by (auto simp: eq)
  have 4: "\<forall>G \<in> set (getUpcomingGames d). is_home G = 1"
    by (auto simp: eq)
  from 1 2 3 4 show ?thesis by blast
qed


theorem getUpcomingGames_witness:
  "map g_id (getUpcomingGames ex_db) = [3, 1] \<and>
   promotions (hd (getUpcomingGames ex_db)) = [hd ex_promotions] \<and>
   is_home (hd (getUpcomingGames ex_db)) = 1"
proof -
  have ids: "map g_id (getUpcomingGames ex_db) = [3, 1]"
    by (simp add: getUpcomingGames_def ex_db_def ex_games_def)
  then have mem: "hd (getUpcomingGames ex_db) \<in> set (getUpcomingGames ex_db)"
    and id3: "g_id (hd (getUpcomingGames ex_db)) = 3"
    by (auto simp: map_eq_Cons_conv)
  note T = getUpcomingGames_home_sorted_with_promotions [of ex_db]
  from T mem have "promotions (hd (getUpcomingGames ex_db)) =
      filter (\<lambda>p. game_id p = g_id (hd (getUpcomingGames ex_db))) (tbl_promotions ex_db)"
    by blast
  then have "promotions (hd (getUpcomingGames ex_db)) = [hd ex_promotions]"
    unfolding id3 by (simp add: ex_db_def ex_promotions_def)
  moreover from T mem have "is_home (hd (getUpcomingGames ex_db)) = 1" by blast
  ultimately show ?thesis using ids by simp
qed


section \<open>Properties of the promotion badge\<close>

lemma toLowerCase_append: "toLowerCase (a @ b) = toLowerCase a @ toLowerCase b"
  by (simp add: toLowerCase_def)

lemma str_includes_iff: "str_includes s sub \<longleftrightarrow> (\<exists>pre post. s = pre @ sub @ post)"
proof (induction s)
  case Nil
  show ?case by auto
next
  case (Cons c cs)
  show ?case
  proof
    assume "str_includes (c # cs) sub"
    then consider "prefix sub (c # cs)" | "str_includes cs sub" by auto
    then show "\<exists>pre post. c # cs = pre @ sub @ post"
    proof cases
      case 1
      then obtain post where "c # cs = sub @ post" by (auto simp: prefix_def)
      then have "c # cs = [] @ sub @ post" by simp
      then show ?thesis by blast
    next
      case 2
      with Cons.IH obtain pre post where "cs = pre @ sub @ post" by blast
      then have "c # cs = (c # pre) @ sub @ post" by simp
      then show ?thesis by blast
    qed
  next
    assume "\<exists>pre post. c # cs = pre @ sub @ post"
    then obtain pre post where e: "c # cs = pre @ sub @ post" by blast
    show "str_includes (c # cs) sub"
    proof (cases pre)
      case Nil
      with e have "prefix sub (c # cs)" by (simp add: prefix_def)
      then show ?thesis by simp
    next
      case (Cons x xs)
      with e have "cs = xs @ sub @ post" by simp
      with Cons.IH have "str_includes cs sub" by blast
      then show ?thesis by simp
    qed
  qed
qed

lemma isJersey_case_insensitive:
  assumes "toLowerCase w = ''jersey''"
  shows "str_includes (toLowerCase (pre @ w @ post)) ''jersey''"
  unfolding str_includes_iff toLowerCase_append assms by blast

lemma PromoBadge_jersey:
  assumes "str_includes (toLowerCase d) ''jersey''"
  shows "PromoBadge t d =
     \<lparr>bgColor = ''bg-[#FFD700]'', textColor = ''text-black'', icon = Gift,
       animation = ''animate-pulse shadow-[0_0_15px_rgba(255,215,0,0.5)]'',
       label = ''Jersey Giveaway''\<rparr>"
  using assms by (simp add: PromoBadge_def Let_def)

lemma getUpcomingGames_promotions_stored:
  assumes "G \<in> set (getUpcomingGames d)" and "p \<in> set (promotions G)"
  shows "p \<in> set (tbl_promotions d)"
  using assms by (auto simp: getUpcomingGames_def Let_def game.extend_def Game.defs)

text \<open>
  Claim C7. The jersey override is display-only. Take any store whose promotions satisfy
  the \<^verbatim>\<open>CHECK\<close> on \<^verbatim>\<open>promo_type\<close>, and any promotion that the dashboard query hands to
  the display whose description contains the word "jersey" in any mix of upper and
  lower case. The badge rendered for it is the gift-icon badge with the text
  "Jersey Giveaway", whatever the promotion's type is; the promotion itself is the row
  as stored, and its \<^verbatim>\<open>promo_type\<close> is one of the six values of the closed enum.
\<close>

theorem jersey_override_display_only:
  assumes check: "\<forall>p\<in>set (tbl_promotions d). promo_type_check p"
    and G: "G \<in> set (getUpcomingGames d)" and p: "p \<in> set (promotions G)"
    and descr: "description p = Some (pre @ w @ post)"
    and w: "toLowerCase w = ''jersey''"
  shows "(\<exists>b. promo_badge_of_row p = Inr b \<and> label b = ''Jersey Giveaway'' \<and> icon b = Gift \<and>
            (\<forall>t. PromoBadge t (pre @ w @ post) = b)) \<and>
         p \<in> set (tbl_promotions d) \<and> promo_type p \<in> set promo_types"
proof -
  let ?d = "pre @ w @ post"
  have j: "str_includes (toLowerCase ?d) ''jersey''"
    by (rule isJersey_case_insensitive [OF w])
  have row: "promo_badge_of_row p = Inr (PromoBadge (promo_type p) ?d)"
    by (simp add: promo_badge_of_row_def descr)
  have indep: "\<forall>t. PromoBadge t ?d = PromoBadge (promo_type p) ?d"
    by (simp add: PromoBadge_jersey [OF j])
  have lab: "label (PromoBadge (promo_type p) ?d) = ''Jersey Giveaway''"
    and ic: "icon (PromoBadge (promo_type p) ?d) = Gift"
    by (simp_all add: PromoBadge_jersey [OF j])
  have stored: "p \<in> set (tbl_promotions d)"
    by (rule getUpcomingGames_promotions_stored [OF G p])
  with check have "promo_type p \<in> set promo_types"
    by (auto simp: promo_type_check_def)
  with row indep lab ic stored show ?thesis by blast
qed


theorem jersey_override_display_only_witness:
  "promo_badge_of_row (hd ex_promotions) =
     Inr \<lparr>bgColor = ''bg-[#FFD700]'', textColor = ''text-black'', icon = Gift,
          animation = ''animate-pulse shadow-[0_0_15px_rgba(255,215,0,0.5)]'',
          label = ''Jersey Giveaway''\<rparr> \<and>
   promo_type (hd ex_promotions) = ''giveaway'' \<and>
   hd ex_promotions \<in> set (tbl_promotions ex_db)"
proof -
  let ?p = "hd ex_promotions"
  let ?G = "hd (getUpcomingGames ex_db)"
  have check: "\<forall>p\<in>set (tbl_promotions ex_db). promo_type_check p"
    by (simp add: ex_db_def ex_promotions_def promo_type_check_def promo_types_def)
  have "map g_id (getUpcomingGames ex_db) = [3, 1]"
    by (simp add: getUpcomingGames_def ex_db_def ex_games_def)
  then have G: "?G \<in> set (getUpcomingGames ex_db)"
    by (auto simp: map_eq_Cons_conv)
  have "promotions ?G = [?p]"
    by (simp add: getUpcomingGames_def ex_db_def ex_games_def ex_promotions_def
        game.extend_def Game.defs)
  then have p: "?p \<in> set (promotions ?G)" by simp
  have descr: "description ?p = Some (''Los Chivos '' @ ''Jersey'' @ '' Night'')"
    by (simp add: ex_promotions_def)
  have w: "toLowerCase ''Jersey'' = ''jersey''"
    by (simp add: toLowerCase_def lower_char_def)
  from jersey_override_display_only [OF check G p descr w]
  obtain b where b: "promo_badge_of_row ?p = Inr b" "label b = ''Jersey Giveaway''"
      "icon b = Gift" and st: "?p \<in> set (tbl_promotions ex_db)"
    by blast
  have "promo_badge_of_row ?p = Inr \<lparr>bgColor = ''bg-[#FFD700]'', textColor = ''text-black'', icon = Gift,
          animation = ''animate-pulse shadow-[0_0_15px_rgba(255,215,0,0.5)]'',
          label = ''Jersey Giveaway''\<rparr>"
    by (simp add: promo_badge_of_row_def ex_promotions_def PromoBadge_def toLowerCase_def lower_char_def)
  moreover have "promo_type ?p = ''giveaway''" by (simp add: ex_promotions_def)
  ultimately show ?thesis using st by simp
qed


section \<open>Properties of the recipient constraint and the signup endpoint\<close>

lemma insert_recipient_no_contact:
  "insert_recipient d nm None None = Inl (if nm = None then NOT_NULL_failed else CHECK_failed)"
  by (cases nm) (simp_all add: insert_recipient_def recipients_check_def Let_def)

lemma insert_recipient_keeps_check:
  assumes "\<forall>r\<in>set (tbl_recipients d). recipients_check r"
    and "insert_recipient d nm ph em = Inr d'"
  shows "\<forall>r\<in>set (tbl_recipients d'). recipients_check r"
  using assms
  by (cases nm) (auto simp: insert_recipient_def Let_def split: if_splits)

lemma update_recipient_contact_keeps_check:
  assumes "\<forall>r\<in>set (tbl_recipients d). recipients_check r"
    and "update_recipient_contact d i ph em = Inr d'"
  shows "\<forall>r\<in>set (tbl_recipients d'). recipients_check r"
proof -
  let ?rs = "map (\<lambda>r. if r_id r = i then r\<lparr>phone := ph, email := em\<rparr> else r) (tbl_recipients d)"
  from assms(2) have ok: "\<not> (\<exists>r \<in> set ?rs. r_id r = i \<and> \<not> recipients_check r)"
    and d': "d' = d\<lparr>tbl_recipients := ?rs\<rparr>"
    by (auto simp: update_recipient_contact_def Let_def split: if_splits)
  show ?thesis
  proof
    fix r assume "r \<in> set (tbl_recipients d')"
    then have r: "r \<in> set ?rs" by (simp add: d')
    show "recipients_check r"
    proof (cases "r_id r = i")
      case True
      with ok r show ?thesis by blast
    next
      case False
      with r have "r \<in> set (tbl_recipients d)" by (auto split: if_splits)
      with assms(1) show ?thesis by blast
    qed
  qed
qed

lemma destructure_request_fields:
  "v \<noteq> JNull \<Longrightarrow> destructure v = Inr (request_fields (Some v))"
  by (cases v) (simp_all add: request_fields_def)

lemma POST_unparsed: "POST env fetch None = (internal_error, [])"
  by (simp add: POST_def)

lemma POST_null: "POST env fetch (Some JNull) = (internal_error, [])"
  by (simp add: POST_def)

lemma POST_rejects:
  assumes "malformed body"
  shows "POST env fetch body =
     (if body = None \<or> body = Some JNull then internal_error else bad_request, [])"
proof (cases body)
  case None
  then show ?thesis by (simp add: POST_unparsed)
next
  case (Some v)
  show ?thesis
  proof (cases "v = JNull")
    case True
    with Some show ?thesis by (simp add: POST_null)
  next
    case False
    obtain n p e where f: "request_fields (Some v) = (n, p, e)"
      by (cases "request_fields (Some v)")
    with assms Some have "falsy n \<or> (falsy p \<and> falsy e)" by (simp add: malformed_def)
    with destructure_request_fields [OF False] f Some False show ?thesis
      by (auto simp: POST_def bad_request_def)
  qed
qed

lemma or_empty_truthy: "\<not> falsy v \<Longrightarrow> or_empty v \<noteq> JString []"
  by (cases v rule: falsy.cases) auto

text \<open>Every answer of the endpoint, branch by branch.\<close>

lemma POST_cases:
  obtains (no_dispatch) r where "POST env fetch body = (r, [])" "\<not> success r"
      "http_status r = 400 \<or> http_status r = 500"
  | (dispatched) r req n p e where "POST env fetch body = (r, [req])"
      "request_fields body = (Some n, p, e)" "\<not> malformed body"
      "input_name req = n" "input_phone req = or_empty p" "input_email req = or_empty e"
proof (cases "malformed body")
  case True
  from POST_rejects [OF True, of env fetch] show ?thesis
    by (intro no_dispatch [of "fst (POST env fetch body)"])
      (auto simp: internal_error_def bad_request_def)
next
  case False
  obtain n' p e where f: "request_fields body = (n', p, e)" by (cases "request_fields body")
  with False have ok: "\<not> falsy n'" "\<not> (falsy p \<and> falsy e)" by (simp_all add: malformed_def)
  then obtain n where n: "n' = Some n" by (cases n') auto
  from f n obtain v where v: "body = Some v" "v \<noteq> JNull"
    by (cases body) (auto simp: request_fields_def split: json.splits)
  from destructure_request_fields [OF v(2)] f n v(1)
  have d: "destructure v = Inr (Some n, p, e)" by simp
  let ?req = "\<lambda>t o' r. \<lparr>url_owner = o', url_repo = r, bearer = t, input_name = n,
      input_phone = or_empty p, input_email = or_empty e\<rparr>"
  have "POST env fetch (Some v) =
        (\<lparr>http_status = 500, success = False, detail = ''Server configuration error''\<rparr>, [])
      \<or> (\<exists>res t o' r. POST env fetch (Some v) = (res, [?req t o' r]))"
    using ok n unfolding POST_def
    by (cases "GITHUB_PAT env"; cases "GITHUB_OWNER env"; cases "GITHUB_REPO env";
        cases "fetch (?req (the (GITHUB_PAT env)) (the (GITHUB_OWNER env)) (the (GITHUB_REPO env)))")
      (simp_all add: d Let_def)
  then consider (config) "POST env fetch body =
        (\<lparr>http_status = 500, success = False, detail = ''Server configuration error''\<rparr>, [])"
    | (sent) t o' r res where "POST env fetch body = (res, [?req t o' r])"
    unfolding v(1) by blast
  then show ?thesis
  proof cases
    case config
    then show ?thesis by (intro no_dispatch) auto
  next
    case (sent t o' r res)
    from sent f n False show ?thesis
      by (intro dispatched [of res "?req t o' r" n p e]) auto
  qed
qed

text \<open>
  Claim C9, as amended. Every recipient has at least one of phone or email. The store
  enforces it: an insert with neither is refused with an error, and an insert or an
  update of the contact columns that succeeds on a table whose rows all satisfy the
  \<^verbatim>\<open>CHECK\<close> leaves a table whose rows all satisfy it. The signup endpoint rejects every
  malformed request, one whose name is missing or whose phone and email are both
  absent, without sending a dispatch: with a 400 error when the body is a JSON value
  other than \<^verbatim>\<open>null\<close>, and with a 500 error when the body is not JSON or is \<^verbatim>\<open>null\<close>.
  Malformed recipients are never silently dropped or coerced: whenever the endpoint
  sends no dispatch it answers with an error of status 400 or 500, and every dispatch it
  does send is for a request that is not malformed and carries the name as sent and the
  phone and email as sent, an absent one as the empty text, one of the two not empty.
\<close>

theorem recipient_requires_contact:
  "(\<exists>err. insert_recipient d nm None None = Inl err) \<and>
   ((\<forall>r\<in>set (tbl_recipients d). recipients_check r) \<longrightarrow>
      (\<forall>d'. insert_recipient d nm ph em = Inr d' \<or> update_recipient_contact d i ph em = Inr d'
         \<longrightarrow> (\<forall>r\<in>set (tbl_recipients d'). recipients_check r))) \<and>
   (malformed body \<longrightarrow>
      POST env fetch body =
        (if body = None \<or> body = Some JNull then internal_error else bad_request, [])) \<and>
   (snd (POST env fetch body) = [] \<longrightarrow>
      \<not> success (fst (POST env fetch body)) \<and>
      (http_status (fst (POST env fetch body)) = 400 \<or>
       http_status (fst (POST env fetch body)) = 500)) \<and>
   (\<forall>req \<in> set (snd (POST env fetch body)).
      \<not> malformed body \<and>
      request_fields body
        = (Some (input_name req), fst (snd (request_fields body)),
           snd (snd (request_fields body))) \<and>
      input_phone req = or_empty (fst (snd (request_fields body))) \<and>
      input_email req = or_empty (snd (snd (request_fields body))) \<and>
      \<not> falsy (Some (input_name req)) \<and>
      (input_phone req \<noteq> JString [] \<or> input_email req \<noteq> JString []))"
proof (intro conjI allI impI)
  show "\<exists>err. insert_recipient d nm None None = Inl err"
    by (simp add: insert_recipient_no_contact)
next
  fix d'
  assume "\<forall>r\<in>set (tbl_recipients d). recipients_check r"
    and "insert_recipient d nm ph em = Inr d' \<or> update_recipient_contact d i ph em = Inr d'"
  then show "\<forall>r\<in>set (tbl_recipients d'). recipients_check r"
    using insert_recipient_keeps_check update_recipient_contact_keeps_check by blast
next
  assume "malformed body"
  then show "POST env fetch body =
        (if body = None \<or> body = Some JNull then internal_error else bad_request, [])"
    by (rule POST_rejects)
next
  assume e: "snd (POST env fetch body) = []"
  show "\<not> success (fst (POST env fetch body))"
    using e by (cases rule: POST_cases [of env fetch body]) auto
  show "http_status (fst (POST env fetch body)) = 400 \<or>
       http_status (fst (POST env fetch body)) = 500"
    using e by (cases rule: POST_cases [of env fetch body]) auto
next
  show "\<forall>req \<in> set (snd (POST env fetch body)).
      \<not> malformed body \<and>
      request_fields body
        = (Some (input_name req), fst (snd (request_fields body)),
           snd (snd (request_fields body))) \<and>
      input_phone req = or_empty (fst (snd (request_fields body))) \<and>
      input_email req = or_empty (snd (snd (request_fields body))) \<and>
      \<not> falsy (Some (input_name req)) \<and>
      (input_phone req \<noteq> JString [] \<or> input_email req \<noteq> JString [])"
  proof (cases rule: POST_cases [of env fetch body])
    case (no_dispatch r)
    then show ?thesis by simp
  next
    case (dispatched r req n p e)
    from dispatched(2,3) have "\<not> falsy (Some n)" and "\<not> (falsy p \<and> falsy e)"
      by (simp_all add: malformed_def)
    then have "or_empty p \<noteq> JString [] \<or> or_empty e \<noteq> JString []"
      using or_empty_truthy by blast
    with dispatched \<open>\<not> falsy (Some n)\<close> show ?thesis by simp
  qed
qed

theorem recipient_requires_contact_witness:
  "insert_recipient ex_db (Some ''Fan'') None None = Inl CHECK_failed \<and>
   tbl_recipients (projr (insert_recipient ex_db (Some ''Fan'') None (Some ''fan@example.com''))) =
     [\<lparr>r_id = 1, name = ''Fan'', phone = None, email = Some ''fan@example.com'', active = 1\<rparr>] \<and>
   recipients_check \<lparr>r_id = 1, name = ''Fan'', phone = None, email = Some ''fan@example.com'', active = 1\<rparr> \<and>
   POST ex_env (\<lambda>_. Resolved 204) (Some ex_body_no_contact) = (bad_request, []) \<and>
   map input_phone (snd (POST ex_env (\<lambda>_. Resolved 204) (Some ex_body_ok))) = [JString ''+18605550001''] \<and>
   map input_email (snd (POST ex_env (\<lambda>_. Resolved 204) (Some ex_body_ok))) = [JString []]"
proof -
  let ?f = "\<lambda>_::dispatch. Resolved 204"
  let ?r = "\<lparr>r_id = 1, name = ''Fan'', phone = None, email = Some ''fan@example.com'', active = 1\<rparr>"
  note T1 = recipient_requires_contact [of ex_db "Some ''Fan''" None "Some ''fan@example.com''" 0
      "Some ex_body_no_contact" ex_env ?f]
  note T2 = recipient_requires_contact [of ex_db "Some ''Fan''" None "Some ''fan@example.com''" 0
      "Some ex_body_ok" ex_env ?f]
  have ins: "insert_recipient ex_db (Some ''Fan'') None (Some ''fan@example.com'') =
      Inr (ex_db\<lparr>tbl_recipients := [?r], seq_recipients := 1\<rparr>)"
    by (simp add: insert_recipient_def ex_db_def next_rowid_def recipients_check_def Let_def)
  have pre: "\<forall>r\<in>set (tbl_recipients ex_db). recipients_check r"
    by (simp add: ex_db_def)
  from T1 pre ins have "\<forall>r\<in>set (tbl_recipients (ex_db\<lparr>tbl_recipients := [?r], seq_recipients := 1\<rparr>)). recipients_check r"
    by blast
  then have chk: "recipients_check ?r" by simp
  have "insert_recipient ex_db (Some ''Fan'') None None = Inl CHECK_failed"
    by (simp add: insert_recipient_def recipients_check_def Let_def)
  moreover have "malformed (Some ex_body_no_contact)"
    by (simp add: malformed_def request_fields_def ex_body_no_contact_def property_def)
  with T1 have "POST ex_env ?f (Some ex_body_no_contact) = (bad_request, [])"
    by (simp add: ex_body_no_contact_def)
  moreover have sent: "\<exists>req. snd (POST ex_env ?f (Some ex_body_ok)) = [req]"
    by (simp add: POST_def ex_body_ok_def ex_env_def property_def)
  have fields: "request_fields (Some ex_body_ok)
      = (Some (JString ''Hartford Fan''), Some (JString ''+18605550001''), None)"
    by (simp add: request_fields_def ex_body_ok_def property_def)
  from sent obtain req where req: "snd (POST ex_env ?f (Some ex_body_ok)) = [req]" by blast
  with T2 have "input_phone req = or_empty (fst (snd (request_fields (Some ex_body_ok))))"
    and "input_email req = or_empty (snd (snd (request_fields (Some ex_body_ok))))"
    by simp_all
  with req fields have "map input_phone (snd (POST ex_env ?f (Some ex_body_ok))) = [JString ''+18605550001'']"
    and "map input_email (snd (POST ex_env ?f (Some ex_body_ok))) = [JString []]"
    by simp_all
  ultimately show ?thesis using ins chk by simp
qed

text \<open>
  The claim as it was stated, a 400 error whenever the name is missing, fails for the
  body \<^verbatim>\<open>null\<close>: it has no name, the destructuring throws, and the answer is 500.
\<close>

theorem signup_null_body_counterexample:
  "malformed (Some JNull) \<and>
   fst (POST ex_env (\<lambda>_. Resolved 204) (Some JNull)) \<noteq> bad_request \<and>
   http_status (fst (POST ex_env (\<lambda>_. Resolved 204) (Some JNull))) = 500 \<and>
   snd (POST ex_env (\<lambda>_. Resolved 204) (Some JNull)) = []"
  by (simp add: malformed_def request_fields_def POST_def internal_error_def bad_request_def)

section \<open>Properties of the audit table\<close>

lemma delivered_recorded: "delivered d t \<longleftrightarrow> recorded d t Delivered"
  by (simp add: delivered_def recorded_def)

lemma alert_key_update [simp]: "alert_key (a\<lparr>status := st, sent_at := ts\<rparr>) = alert_key a"
  by (simp add: alert_key_def)

lemma rewrite_keys:
  "map alert_key (map (\<lambda>a. if alert_key a = t then a\<lparr>status := st, sent_at := ts\<rparr> else a) xs)
     = map alert_key xs"
  by (induction xs) auto

lemma rewrite_statuses:
  "(\<exists>a \<in> set (map (\<lambda>a. if alert_key a = t then a\<lparr>status := st, sent_at := ts\<rparr> else a) xs).
       alert_key a = t' \<and> status a = s) \<longleftrightarrow>
   (if t' = t then t \<in> set (map alert_key xs) \<and> s = st
    else (\<exists>a \<in> set xs. alert_key a = t' \<and> status a = s))"
  by (induction xs) auto

lemma insert_alert_Inr:
  assumes "insert_alert d t ts st = Inr d'"
  shows "t \<notin> set (map alert_key (tbl_alerts_sent d)) \<and>
     (\<exists>a. tbl_alerts_sent d' = tbl_alerts_sent d @ [a] \<and> alert_key a = t \<and> status a = st) \<and>
     tbl_games d' = tbl_games d \<and> tbl_recipients d' = tbl_recipients d \<and>
     tbl_promotions d' = tbl_promotions d"
  using assms
  by (auto simp: insert_alert_def Let_def alert_key_def split: prod.splits if_splits)

lemma insert_alert_succeeds:
  assumes "t \<notin> set (map alert_key (tbl_alerts_sent d))"
    and "fst t \<in> set (map g_id (tbl_games d))"
    and "fst (snd t) \<in> set (map r_id (tbl_recipients d))"
  shows "\<exists>d'. insert_alert d t ts st = Inr d'"
  using assms by (cases t) (simp add: insert_alert_def Let_def)

lemma write_delivery_cases:
  assumes "write_delivery d t st now = Inr d'"
  obtains
    (rewrite) "t \<in> set (map alert_key (tbl_alerts_sent d))"
      "tbl_alerts_sent d' =
         map (\<lambda>a. if alert_key a = t then a\<lparr>status := st, sent_at := Some now\<rparr> else a)
           (tbl_alerts_sent d)"
  | (insert) a where "t \<notin> set (map alert_key (tbl_alerts_sent d))"
      "tbl_alerts_sent d' = tbl_alerts_sent d @ [a]" "alert_key a = t" "status a = st"
proof (cases "t \<in> set (map alert_key (tbl_alerts_sent d))")
  case True
  with assms have "tbl_alerts_sent d' =
         map (\<lambda>a. if alert_key a = t then a\<lparr>status := st, sent_at := Some now\<rparr> else a)
           (tbl_alerts_sent d)"
    by (auto simp: write_delivery_def)
  with True show ?thesis by (rule rewrite)
next
  case False
  with assms have "insert_alert d t (Some now) st = Inr d'"
    by (simp add: write_delivery_def)
  from insert_alert_Inr [OF this] False show ?thesis using insert by blast
qed

lemma write_delivery_recorded:
  assumes "write_delivery d t st now = Inr d'"
  shows "recorded d' t' s \<longleftrightarrow> (if t' = t then s = st else recorded d t' s)"
  using assms
proof (cases rule: write_delivery_cases)
  case rewrite
  then show ?thesis
    unfolding recorded_def rewrite(2) rewrite_statuses by simp
next
  case (insert a)
  then show ?thesis by (auto simp: recorded_def image_iff)
qed

lemma write_delivery_keys:
  assumes "write_delivery d t st now = Inr d'"
  shows "set (map alert_key (tbl_alerts_sent d')) = insert t (set (map alert_key (tbl_alerts_sent d)))"
  using assms
proof (cases rule: write_delivery_cases)
  case rewrite
  then show ?thesis unfolding rewrite(2) rewrite_keys by auto
next
  case (insert a)
  then show ?thesis by auto
qed

lemma write_delivery_distinct:
  assumes "write_delivery d t st now = Inr d'"
    and "distinct (map alert_key (tbl_alerts_sent d))"
  shows "distinct (map alert_key (tbl_alerts_sent d'))"
  using assms(1)
proof (cases rule: write_delivery_cases)
  case rewrite
  from assms(2) show ?thesis unfolding rewrite(2) rewrite_keys .
next
  case (insert a)
  with assms(2) show ?thesis by auto
qed

lemma write_delivery_frame:
  assumes "write_delivery d t st now = Inr d'"
  shows "tbl_games d' = tbl_games d \<and> tbl_recipients d' = tbl_recipients d \<and>
         tbl_promotions d' = tbl_promotions d"
  using assms insert_alert_Inr [of d t "Some now" st d']
  by (auto simp: write_delivery_def split: if_splits)

lemma write_delivery_succeeds:
  assumes "fst t \<in> set (map g_id (tbl_games d))"
    and "fst (snd t) \<in> set (map r_id (tbl_recipients d))"
  shows "\<exists>d'. write_delivery d t st now = Inr d'"
  using assms insert_alert_succeeds [of t d "Some now" st]
  by (auto simp: write_delivery_def)

section \<open>Properties of the delivery dispatcher\<close>

lemma dispatch_triple_skip:
  "delivered d t \<Longrightarrow> dispatch_triple provider now (d, log) t = Inr (d, log)"
  by (simp add: dispatch_triple_def)

lemma dispatch_triple_attempt:
  assumes "\<not> delivered d t" and "fk_ok d t"
  shows "\<exists>d'. write_delivery d t (if provider (length log) t then Delivered else Failed) now = Inr d' \<and>
     dispatch_triple provider now (d, log) t = Inr (d', log @ [(t, provider (length log) t)])"
proof -
  from assms(2) obtain d' where
    "write_delivery d t (if provider (length log) t then Delivered else Failed) now = Inr d'"
    using write_delivery_succeeds [of t d] unfolding fk_ok_def by blast
  with assms(1) show ?thesis by (simp add: dispatch_triple_def Let_def)
qed

lemma dispatch_triple_succeeds:
  assumes "fk_ok d t"
  shows "\<exists>d' log'. dispatch_triple provider now (d, log) t = Inr (d', log')"
  using dispatch_triple_skip [of d t provider now log]
    dispatch_triple_attempt [OF _ assms, of provider log now]
  by (cases "delivered d t") auto

text \<open>What one step that returns has done to the store and the log.\<close>

lemma dispatch_triple_Inr:
  assumes "dispatch_triple provider now (d, log) t = Inr (d', log')"
  obtains (skip) "delivered d t" "d' = d" "log' = log"
  | (attempt) "\<not> delivered d t" "log' = log @ [(t, provider (length log) t)]"
      "\<And>t' s. recorded d' t' s \<longleftrightarrow>
          (if t' = t then s = (if provider (length log) t then Delivered else Failed)
           else recorded d t' s)"
      "distinct (map alert_key (tbl_alerts_sent d)) \<Longrightarrow> distinct (map alert_key (tbl_alerts_sent d'))"
      "tbl_games d' = tbl_games d" "tbl_recipients d' = tbl_recipients d"
      "tbl_promotions d' = tbl_promotions d"
proof (cases "delivered d t")
  case True
  with assms have "d' = d" and "log' = log" by (simp_all add: dispatch_triple_def)
  with True show ?thesis by (rule skip)
next
  case False
  with assms have
    w: "write_delivery d t (if provider (length log) t then Delivered else Failed) now = Inr d'"
    and l: "log' = log @ [(t, provider (length log) t)]"
    by (auto simp: dispatch_triple_def Let_def split: sum.splits)
  show ?thesis
  proof (rule attempt [OF False l])
    show "recorded d' t' s \<longleftrightarrow>
          (if t' = t then s = (if provider (length log) t then Delivered else Failed)
           else recorded d t' s)" for t' s
      by (rule write_delivery_recorded [OF w])
    show "distinct (map alert_key (tbl_alerts_sent d'))" if "distinct (map alert_key (tbl_alerts_sent d))"
      by (rule write_delivery_distinct [OF w that])
    show "tbl_games d' = tbl_games d" "tbl_recipients d' = tbl_recipients d"
      "tbl_promotions d' = tbl_promotions d"
      using write_delivery_frame [OF w] by simp_all
  qed
qed

lemma fk_ok_cong:
  "tbl_games d' = tbl_games d \<Longrightarrow> tbl_recipients d' = tbl_recipients d \<Longrightarrow> fk_ok d' t = fk_ok d t"
  by (simp add: fk_ok_def)

lemma dispatch_triple_inv:
  assumes inv: "dispatcher_inv d0 s" and fk: "fk_ok d0 t"
  shows "\<exists>s'. dispatch_triple provider now s t = Inr s' \<and> dispatcher_inv d0 s'"
proof -
  obtain d log where s: "s = (d, log)" by (cases s)
  from inv s have i1: "distinct (map alert_key (tbl_alerts_sent d))"
    and i2: "distinct (map fst (filter snd log))"
    and i3: "\<forall>t. (t, True) \<in> set log \<longrightarrow> delivered d t"
    and i4: "\<forall>t. delivered d0 t \<longrightarrow> delivered d t"
    and i5: "\<forall>t ok. (t, ok) \<in> set log \<longrightarrow> \<not> delivered d0 t"
    and i6: "tbl_games d = tbl_games d0" and i7: "tbl_recipients d = tbl_recipients d0"
    by (simp_all add: dispatcher_inv_def)
  from i6 i7 fk have fk': "fk_ok d t" by (simp add: fk_ok_def)
  from dispatch_triple_succeeds [OF fk', of provider now log] obtain d' log'
    where step: "dispatch_triple provider now (d, log) t = Inr (d', log')" by blast
  from step show ?thesis
  proof (cases rule: dispatch_triple_Inr)
    case skip
    with inv s step show ?thesis by auto
  next
    case attempt
    let ?ok = "provider (length log) t"
    have del: "delivered d' t' \<longleftrightarrow> (if t' = t then ?ok else delivered d t')" for t'
      unfolding delivered_recorded attempt(3) by simp
    from i3 attempt(1) have notin: "(t, True) \<notin> set log" by blast
    from i4 attempt(1) have nd0: "\<not> delivered d0 t" by blast
    from notin have t_new: "t \<notin> fst ` set (filter snd log)" by force
    have "dispatcher_inv d0 (d', log @ [(t, ?ok)])"
      unfolding dispatcher_inv_def fst_conv snd_conv
    proof (intro conjI allI impI)
      show "distinct (map alert_key (tbl_alerts_sent d'))"
        using attempt(4) i1 by simp
      show "distinct (map fst (filter snd (log @ [(t, ?ok)])))"
        using i2 t_new by simp
      show "delivered d' t'" if "(t', True) \<in> set (log @ [(t, ?ok)])" for t'
      proof (cases "t' = t")
        case True
        with that notin have ?ok by auto
        with True show ?thesis by (simp add: del)
      next
        case False
        with that have "(t', True) \<in> set log" by simp
        with i3 have "delivered d t'" by blast
        with False show ?thesis by (simp add: del)
      qed
      show "delivered d' t'" if "delivered d0 t'" for t'
      proof -
        from that nd0 have "t' \<noteq> t" by blast
        moreover from that i4 have "delivered d t'" by blast
        ultimately show ?thesis by (simp add: del)
      qed
      show "\<not> delivered d0 t'" if "(t', ok) \<in> set (log @ [(t, ?ok)])" for t' ok
      proof (cases "(t', ok) \<in> set log")
        case True
        with i5 show ?thesis by blast
      next
        case False
        with that have "t' = t" by simp
        with nd0 show ?thesis by simp
      qed
      show "tbl_games d' = tbl_games d0" "tbl_recipients d' = tbl_recipients d0"
        using attempt(5,6) i6 i7 by simp_all
    qed
    with attempt(2) step s show ?thesis by auto
  qed
qed

lemma dispatch_all_inv:
  assumes "dispatcher_inv d0 s" and "\<forall>t \<in> set ts. fk_ok d0 t"
  shows "\<exists>s'. dispatch_all provider now s ts = Inr s' \<and> dispatcher_inv d0 s'"
  using assms
proof (induction ts arbitrary: s)
  case Nil
  then show ?case by simp
next
  case (Cons t ts)
  from dispatch_triple_inv [OF Cons.prems(1), of t provider now] Cons.prems(2)
  obtain s1 where s1: "dispatch_triple provider now s t = Inr s1" "dispatcher_inv d0 s1"
    by auto
  from Cons.IH [OF s1(2)] Cons.prems(2) obtain s' where
    "dispatch_all provider now s1 ts = Inr s'" "dispatcher_inv d0 s'" by auto
  with s1(1) show ?case by simp
qed

lemma delivery_triples_fk:
  assumes "set (map g_id qualifying) \<subseteq> set (map g_id (tbl_games d))"
  shows "\<forall>t \<in> set (delivery_triples qualifying (tbl_recipients d)). fk_ok d t"
  using assms by (auto simp: delivery_triples_def fk_ok_def)

lemma run_dispatcher_inv:
  assumes "dispatcher_inv d0 s" and "set (map g_id qualifying) \<subseteq> set (map g_id (tbl_games d0))"
  shows "run_dispatcher provider now cutoff qualifying s = Inl DataFreshnessFailure \<or>
     (\<exists>s'. run_dispatcher provider now cutoff qualifying s = Inr s' \<and> dispatcher_inv d0 s')"
proof (cases "data_is_fresh (fst s) cutoff")
  case False
  then show ?thesis by (simp add: run_dispatcher_def)
next
  case True
  from assms(1) have "tbl_recipients (fst s) = tbl_recipients d0"
    by (simp add: dispatcher_inv_def)
  with dispatch_all_inv [OF assms(1) delivery_triples_fk [OF assms(2)], of provider now]
  obtain s' where "dispatch_all provider now s
      (delivery_triples qualifying (tbl_recipients (fst s))) = Inr s'" "dispatcher_inv d0 s'"
    by auto
  with True show ?thesis by (simp add: run_dispatcher_def)
qed

lemma dispatcher_runs_inv:
  assumes "dispatcher_inv d0 s"
    and "\<forall>run \<in> set runs. set (map g_id (snd (snd run))) \<subseteq> set (map g_id (tbl_games d0))"
  shows "\<exists>s'. dispatcher_runs provider runs s = Inr s' \<and> dispatcher_inv d0 s'"
  using assms
proof (induction runs arbitrary: s)
  case Nil
  then show ?case by simp
next
  case (Cons run runs)
  from Cons.prems(2) have q: "set (map g_id (snd (snd run))) \<subseteq> set (map g_id (tbl_games d0))"
    by simp
  from run_dispatcher_inv [OF Cons.prems(1) q, of provider "fst run" "fst (snd run)"]
  consider (stale) "run_dispatcher provider (fst run) (fst (snd run)) (snd (snd run)) s
      = Inl DataFreshnessFailure"
    | (ran) s1 where "run_dispatcher provider (fst run) (fst (snd run)) (snd (snd run)) s = Inr s1"
      "dispatcher_inv d0 s1"
    by blast
  then show ?case
  proof cases
    case stale
    from Cons.IH [OF Cons.prems(1)] Cons.prems(2) obtain s' where
      "dispatcher_runs provider runs s = Inr s'" "dispatcher_inv d0 s'" by auto
    with stale show ?thesis by simp
  next
    case ran
    from Cons.IH [OF ran(2)] Cons.prems(2) obtain s' where
      "dispatcher_runs provider runs s1 = Inr s'" "dispatcher_inv d0 s'" by auto
    with ran(1) show ?thesis by simp
  qed
qed

lemma insert_alert_duplicate:
  "t \<in> set (map alert_key (tbl_alerts_sent d)) \<Longrightarrow> insert_alert d t ts st = Inl UNIQUE_failed"
  by (cases t) (simp add: insert_alert_def)

lemma ex_log: "map_sum id snd (dispatcher_runs ex_provider ex_runs (ex_store, [])) =
   Inr [((3, 1, Sms), False), ((3, 2, Sms), True), ((3, 2, Email), True), ((3, 1, Sms), False)]"
  by (simp add: ex_runs_def ex_store_def ex_db_def ex_games_def ex_recipients_def ex_qualifying_def
      ex_provider_def run_dispatcher_def data_is_fresh_def getSyncStatus_def sql_MAX_def
      delivery_triples_def channels_of_def dispatch_triple_def
      delivered_def write_delivery_def insert_alert_def alert_key_def next_rowid_def Let_def)

text \<open>
  Claim C1. For every (game, recipient, channel) triple at most one successful delivery
  ever occurs. Start from any store whose audit table satisfies its uniqueness
  constraint and run the dispatcher any number of times, each time on qualifying games
  of the store and against any provider, a run on stale data being aborted and the next
  one taking place. The runs return; in the log of all provider
  invocations no triple succeeds twice, no triple that was already recorded as delivered
  is invoked at all, every success is recorded as delivered, and the audit table still
  has one row per triple. Before invoking the provider the dispatcher checks the audit
  table: a triple recorded as delivered is skipped, leaving store and log as they were.
  And the store refuses a second row for a triple that has one.
\<close>

theorem at_most_one_successful_delivery:
  assumes "distinct (map alert_key (tbl_alerts_sent d))"
    and "\<forall>run \<in> set runs. set (map g_id (snd (snd run))) \<subseteq> set (map g_id (tbl_games d))"
  shows "(\<exists>d' log. dispatcher_runs provider runs (d, []) = Inr (d', log) \<and>
            distinct (map fst (filter snd log)) \<and>
            (\<forall>t ok. (t, ok) \<in> set log \<longrightarrow> \<not> delivered d t) \<and>
            (\<forall>t. (t, True) \<in> set log \<longrightarrow> delivered d' t) \<and>
            distinct (map alert_key (tbl_alerts_sent d'))) \<and>
         (\<forall>t log now. delivered d t \<longrightarrow> dispatch_triple provider now (d, log) t = Inr (d, log)) \<and>
         (\<forall>t ts st. t \<in> set (map alert_key (tbl_alerts_sent d)) \<longrightarrow>
            insert_alert d t ts st = Inl UNIQUE_failed)"
proof (intro conjI allI impI)
  have "dispatcher_inv d (d, [])"
    using assms(1) by (simp add: dispatcher_inv_def)
  from dispatcher_runs_inv [OF this assms(2), of provider]
  obtain d' log where "dispatcher_runs provider runs (d, []) = Inr (d', log)"
    and "dispatcher_inv d (d', log)" by (metis surj_pair)
  then show "\<exists>d' log. dispatcher_runs provider runs (d, []) = Inr (d', log) \<and>
            distinct (map fst (filter snd log)) \<and>
            (\<forall>t ok. (t, ok) \<in> set log \<longrightarrow> \<not> delivered d t) \<and>
            (\<forall>t. (t, True) \<in> set log \<longrightarrow> delivered d' t) \<and>
            distinct (map alert_key (tbl_alerts_sent d'))"
    unfolding dispatcher_inv_def by (intro exI [of _ d'] exI [of _ log]) simp
next
  fix t log now assume "delivered d t"
  then show "dispatch_triple provider now (d, log) t = Inr (d, log)"
    by (rule dispatch_triple_skip)
next
  fix t ts st assume "t \<in> set (map alert_key (tbl_alerts_sent d))"
  then show "insert_alert d t ts st = Inl UNIQUE_failed"
    by (rule insert_alert_duplicate)
qed

theorem at_most_one_successful_delivery_witness:
  "\<exists>d' log. dispatcher_runs ex_provider ex_runs (ex_store, []) = Inr (d', log) \<and>
      log = [((3, 1, Sms), False), ((3, 2, Sms), True), ((3, 2, Email), True), ((3, 1, Sms), False)] \<and>
      distinct (map fst (filter snd log)) \<and>
      distinct (map alert_key (tbl_alerts_sent d'))"
proof -
  have u: "distinct (map alert_key (tbl_alerts_sent ex_store))"
    by (simp add: ex_store_def ex_db_def)
  have q: "\<forall>run \<in> set ex_runs. set (map g_id (snd (snd run))) \<subseteq> set (map g_id (tbl_games ex_store))"
    by (simp add: ex_runs_def ex_qualifying_def ex_store_def ex_db_def ex_games_def)
  from at_most_one_successful_delivery [OF u q, of ex_provider]
  obtain d' log where r: "dispatcher_runs ex_provider ex_runs (ex_store, []) = Inr (d', log)"
    and d: "distinct (map fst (filter snd log))" "distinct (map alert_key (tbl_alerts_sent d'))"
    by blast
  from r ex_log have "log = [((3, 1, Sms), False), ((3, 2, Sms), True), ((3, 2, Email), True), ((3, 1, Sms), False)]"
    by simp
  with r d show ?thesis by blast
qed

lemma dispatch_all_Cons_Inr:
  assumes "dispatch_all provider now (d, log) (t # ts) = Inr (d', log')"
  obtains d1 log1 where "dispatch_triple provider now (d, log) t = Inr (d1, log1)"
    and "dispatch_all provider now (d1, log1) ts = Inr (d', log')"
  using assms by (auto split: sum.splits)

lemma dispatch_all_delivered_mono:
  assumes "dispatch_all provider now (d, log) ts = Inr (d', log')" and "delivered d t"
  shows "delivered d' t"
  using assms
proof (induction ts arbitrary: d log)
  case Nil
  then show ?case by simp
next
  case (Cons u ts)
  from Cons.prems(1) obtain d1 log1 where
    step: "dispatch_triple provider now (d, log) u = Inr (d1, log1)"
    and rest: "dispatch_all provider now (d1, log1) ts = Inr (d', log')"
    by (rule dispatch_all_Cons_Inr)
  from step have "delivered d1 t"
  proof (cases rule: dispatch_triple_Inr)
    case skip
    with Cons.prems(2) show ?thesis by simp
  next
    case attempt
    with Cons.prems(2) have "t \<noteq> u" by blast
    with Cons.prems(2) show ?thesis
      unfolding delivered_recorded attempt(3) by simp
  qed
  with Cons.IH [OF rest] show ?case .
qed

lemma dispatch_all_success:
  assumes "dispatch_all provider now (d, log) ts = Inr (d', log')"
    and "t \<in> set ts" and "\<forall>n. provider n t"
  shows "delivered d' t"
  using assms
proof (induction ts arbitrary: d log)
  case Nil
  then show ?case by simp
next
  case (Cons u ts)
  from Cons.prems(1) obtain d1 log1 where
    step: "dispatch_triple provider now (d, log) u = Inr (d1, log1)"
    and rest: "dispatch_all provider now (d1, log1) ts = Inr (d', log')"
    by (rule dispatch_all_Cons_Inr)
  show ?case
  proof (cases "t = u")
    case True
    from step have "delivered d1 t"
    proof (cases rule: dispatch_triple_Inr)
      case skip
      with True show ?thesis by simp
    next
      case attempt
      show ?thesis
        unfolding delivered_recorded attempt(3) using True Cons.prems(3) by simp
    qed
    with rest show ?thesis by (rule dispatch_all_delivered_mono)
  next
    case False
    with Cons.prems(2) have "t \<in> set ts" by simp
    from Cons.IH [OF rest this Cons.prems(3)] show ?thesis .
  qed
qed

lemma dispatch_all_failure:
  assumes "dispatch_all provider now (d, log) ts = Inr (d', log')"
    and "\<not> delivered d t" and "\<forall>n. \<not> provider n t"
  shows "\<not> delivered d' t \<and> (recorded d t Failed \<or> t \<in> set ts \<longrightarrow> recorded d' t Failed)"
  using assms(1,2)
proof (induction ts arbitrary: d log)
  case Nil
  then show ?case by simp
next
  case (Cons u ts)
  from Cons.prems(1) obtain d1 log1 where
    step: "dispatch_triple provider now (d, log) u = Inr (d1, log1)"
    and rest: "dispatch_all provider now (d1, log1) ts = Inr (d', log')"
    by (rule dispatch_all_Cons_Inr)
  from step have d1: "\<not> delivered d1 t \<and> (recorded d t Failed \<or> t = u \<longrightarrow> recorded d1 t Failed)"
  proof (cases rule: dispatch_triple_Inr)
    case skip
    with Cons.prems(2) show ?thesis by auto
  next
    case attempt
    show ?thesis
      unfolding delivered_recorded attempt(3)
      using Cons.prems(2) assms(3) by (auto simp: delivered_recorded)
  qed
  from Cons.IH [OF rest] d1 show ?case by auto
qed

lemma dispatch_all_log:
  assumes "dispatch_all provider now (d, log) ts = Inr (d', log')"
  shows "\<exists>new. log' = log @ new \<and>
     (\<forall>t \<in> fst ` set new. \<not> delivered d t \<and> t \<in> set ts) \<and>
     (\<forall>t \<in> set ts. \<not> delivered d t \<longrightarrow> t \<in> fst ` set new)"
  using assms
proof (induction ts arbitrary: d log)
  case Nil
  then show ?case by simp
next
  case (Cons u ts)
  from Cons.prems(1) obtain d1 log1 where
    step: "dispatch_triple provider now (d, log) u = Inr (d1, log1)"
    and rest: "dispatch_all provider now (d1, log1) ts = Inr (d', log')"
    by (rule dispatch_all_Cons_Inr)
  from Cons.IH [OF rest] obtain new where new: "log' = log1 @ new"
    "\<forall>t \<in> fst ` set new. \<not> delivered d1 t \<and> t \<in> set ts"
    "\<forall>t \<in> set ts. \<not> delivered d1 t \<longrightarrow> t \<in> fst ` set new"
    by blast
  from step show ?case
  proof (cases rule: dispatch_triple_Inr)
    case skip
    with new show ?thesis by (intro exI [of _ new]) auto
  next
    case attempt
    let ?ok = "provider (length log) u"
    have del: "delivered d1 t \<longleftrightarrow> (if t = u then ?ok else delivered d t)" for t
      unfolding delivered_recorded attempt(3) by simp
    have mono: "\<not> delivered d1 t \<Longrightarrow> \<not> delivered d t" for t
      using attempt(1) by (auto simp: del split: if_splits)
    show ?thesis
    proof (intro exI [of _ "(u, ?ok) # new"] conjI ballI impI)
      show "log' = log @ (u, ?ok) # new" using new(1) attempt(2) by simp
      show "\<not> delivered d t" if "t \<in> fst ` set ((u, ?ok) # new)" for t
        using that new(2) attempt(1) mono by auto
      show "t \<in> set (u # ts)" if "t \<in> fst ` set ((u, ?ok) # new)" for t
        using that new(2) by auto
      show "t \<in> fst ` set ((u, ?ok) # new)" if "t \<in> set (u # ts)" "\<not> delivered d t" for t
      proof (cases "t = u")
        case True
        then show ?thesis by simp
      next
        case False
        with that have "t \<in> set ts" "\<not> delivered d1 t" by (simp_all add: del)
        with new(3) show ?thesis by auto
      qed
    qed
  qed
qed

lemma delivery_triples_mem:
  assumes "g \<in> set qualifying" and "r \<in> set rs" and "active r = 1" and "c \<in> set (channels_of r)"
  shows "(g_id g, r_id r, c) \<in> set (delivery_triples qualifying rs)"
  using assms by (auto simp: delivery_triples_def)

lemma dispatch_all_frame:
  assumes "dispatch_all provider now (d, log) ts = Inr (d', log')"
  shows "tbl_games d' = tbl_games d \<and> tbl_recipients d' = tbl_recipients d"
  using assms
proof (induction ts arbitrary: d log)
  case Nil
  then show ?case by simp
next
  case (Cons u ts)
  from Cons.prems(1) obtain d1 log1 where
    step: "dispatch_triple provider now (d, log) u = Inr (d1, log1)"
    and rest: "dispatch_all provider now (d1, log1) ts = Inr (d', log')"
    by (rule dispatch_all_Cons_Inr)
  from step have "tbl_games d1 = tbl_games d \<and> tbl_recipients d1 = tbl_recipients d"
    by (cases rule: dispatch_triple_Inr) simp_all
  with Cons.IH [OF rest] show ?case by simp
qed

lemma dispatch_all_succeeds:
  assumes "\<forall>t \<in> set ts. fk_ok d t"
  shows "\<exists>d' log'. dispatch_all provider now (d, log) ts = Inr (d', log')"
  using assms
proof (induction ts arbitrary: d log)
  case Nil
  then show ?case by simp
next
  case (Cons u ts)
  from Cons.prems have "fk_ok d u" by simp
  from dispatch_triple_succeeds [OF this, of provider now log] obtain d1 log1 where
    step: "dispatch_triple provider now (d, log) u = Inr (d1, log1)" by blast
  then have "tbl_games d1 = tbl_games d \<and> tbl_recipients d1 = tbl_recipients d"
    by (cases rule: dispatch_triple_Inr) simp_all
  with Cons.prems have "\<forall>t \<in> set ts. fk_ok d1 t" by (simp add: fk_ok_def)
  from Cons.IH [OF this, of log1] step show ?case by auto
qed

lemma data_is_fresh_games:
  "tbl_games d' = tbl_games d \<Longrightarrow> data_is_fresh d' cutoff = data_is_fresh d cutoff"
  by (simp add: data_is_fresh_def getSyncStatus_def)

lemma run_dispatcher_stale:
  "\<not> data_is_fresh d cutoff \<Longrightarrow>
     run_dispatcher provider now cutoff qualifying (d, log) = Inl DataFreshnessFailure"
  by (simp add: run_dispatcher_def)

lemma run_dispatcher_succeeds:
  assumes "data_is_fresh d cutoff"
    and "set (map g_id qualifying) \<subseteq> set (map g_id (tbl_games d))"
  shows "\<exists>d' log'. run_dispatcher provider now cutoff qualifying (d, log) = Inr (d', log') \<and>
     dispatch_all provider now (d, log) (delivery_triples qualifying (tbl_recipients d))
       = Inr (d', log')"
proof -
  from dispatch_all_succeeds [OF delivery_triples_fk [OF assms(2)], of provider now log]
  obtain d' log' where
    "dispatch_all provider now (d, log) (delivery_triples qualifying (tbl_recipients d))
       = Inr (d', log')" by blast
  with assms(1) show ?thesis by (simp add: run_dispatcher_def)
qed

lemma delivery_triples_game:
  "t \<in> set (delivery_triples qualifying rs) \<Longrightarrow> fst t \<in> set (map g_id qualifying)"
  by (auto simp: delivery_triples_def)

text \<open>
  Claim C5, as amended. Delivery failures are isolated per triple. Let the data be fresh,
  let a game qualify, and let recipients A and B be active with a destination for the
  same channel; let A's triple not be delivered yet, and let the provider fail for A's
  triple and succeed for B's. Then the run returns normally; afterwards the store holds a
  "failed" record for A's triple, which is not delivered, and a "delivered" record for
  B's. Every subsequent run, at any time, with any cutoff, against any provider and on
  any qualifying games of the store, either finds the data stale and aborts, or returns:
  it then invokes the provider for A's triple exactly when the game is among its
  qualifying games, never for B's triple, and for no triple that the first run left
  delivered.
\<close>

theorem delivery_failure_is_isolated:
  assumes fresh: "data_is_fresh d cutoff"
    and g: "g \<in> set qualifying"
    and games: "set (map g_id qualifying) \<subseteq> set (map g_id (tbl_games d))"
    and A: "a \<in> set (tbl_recipients d)" "active a = 1" "c \<in> set (channels_of a)"
    and B: "b \<in> set (tbl_recipients d)" "active b = 1" "c \<in> set (channels_of b)"
    and todo: "\<not> delivered d (g_id g, r_id a, c)"
    and fails: "\<forall>n. \<not> provider n (g_id g, r_id a, c)"
    and succeeds: "\<forall>n. provider n (g_id g, r_id b, c)"
  shows "\<exists>d1 log1. run_dispatcher provider now cutoff qualifying (d, log) = Inr (d1, log1) \<and>
           recorded d1 (g_id g, r_id a, c) Failed \<and>
           \<not> delivered d1 (g_id g, r_id a, c) \<and>
           delivered d1 (g_id g, r_id b, c) \<and>
           (\<forall>provider2 now2 cutoff2 qualifying2.
              set (map g_id qualifying2) \<subseteq> set (map g_id (tbl_games d)) \<longrightarrow>
              (if data_is_fresh d1 cutoff2 then
                 \<exists>d2 new.
                   run_dispatcher provider2 now2 cutoff2 qualifying2 (d1, log1)
                     = Inr (d2, log1 @ new) \<and>
                   ((g_id g, r_id a, c) \<in> fst ` set new
                      \<longleftrightarrow> g_id g \<in> set (map g_id qualifying2)) \<and>
                   (g_id g, r_id b, c) \<notin> fst ` set new \<and>
                   (\<forall>t \<in> fst ` set new. \<not> delivered d1 t)
               else run_dispatcher provider2 now2 cutoff2 qualifying2 (d1, log1)
                      = Inl DataFreshnessFailure))"
proof -
  let ?ta = "(g_id g, r_id a, c)" and ?tb = "(g_id g, r_id b, c)"
  let ?ts = "delivery_triples qualifying (tbl_recipients d)"
  have ta: "?ta \<in> set ?ts" by (rule delivery_triples_mem [OF g A])
  have tb: "?tb \<in> set ?ts" by (rule delivery_triples_mem [OF g B])
  from run_dispatcher_succeeds [OF fresh games, of provider now log] obtain d1 log1 where
    run1: "run_dispatcher provider now cutoff qualifying (d, log) = Inr (d1, log1)"
    and all1: "dispatch_all provider now (d, log) ?ts = Inr (d1, log1)" by blast
  from dispatch_all_failure [OF all1 todo fails] ta
  have fa: "recorded d1 ?ta Failed" and nda: "\<not> delivered d1 ?ta" by simp_all
  from dispatch_all_success [OF all1 tb succeeds] have db: "delivered d1 ?tb" .
  from dispatch_all_frame [OF all1] have frame: "tbl_games d1 = tbl_games d"
    "tbl_recipients d1 = tbl_recipients d" by simp_all
  have second:
    "if data_is_fresh d1 cutoff2 then
       \<exists>d2 new.
         run_dispatcher provider2 now2 cutoff2 qualifying2 (d1, log1) = Inr (d2, log1 @ new) \<and>
         (?ta \<in> fst ` set new \<longleftrightarrow> g_id g \<in> set (map g_id qualifying2)) \<and>
         ?tb \<notin> fst ` set new \<and> (\<forall>t \<in> fst ` set new. \<not> delivered d1 t)
     else run_dispatcher provider2 now2 cutoff2 qualifying2 (d1, log1) = Inl DataFreshnessFailure"
    if q2: "set (map g_id qualifying2) \<subseteq> set (map g_id (tbl_games d))"
    for provider2 now2 cutoff2 qualifying2
  proof (cases "data_is_fresh d1 cutoff2")
    case False
    then show ?thesis by (simp add: run_dispatcher_stale)
  next
    case True
    let ?ts2 = "delivery_triples qualifying2 (tbl_recipients d)"
    from q2 frame have "set (map g_id qualifying2) \<subseteq> set (map g_id (tbl_games d1))" by simp
    from run_dispatcher_succeeds [OF True this, of provider2 now2 log1] obtain d2 log2 where
      run2: "run_dispatcher provider2 now2 cutoff2 qualifying2 (d1, log1) = Inr (d2, log2)"
      and all2: "dispatch_all provider2 now2 (d1, log1) ?ts2 = Inr (d2, log2)"
      by (auto simp: frame)
    from dispatch_all_log [OF all2] obtain new where new: "log2 = log1 @ new"
      "\<forall>t \<in> fst ` set new. \<not> delivered d1 t \<and> t \<in> set ?ts2"
      "\<forall>t \<in> set ?ts2. \<not> delivered d1 t \<longrightarrow> t \<in> fst ` set new"
      by blast
    have "?ta \<in> fst ` set new \<longleftrightarrow> g_id g \<in> set (map g_id qualifying2)"
    proof
      assume "?ta \<in> fst ` set new"
      with new(2) have "?ta \<in> set ?ts2" by blast
      from delivery_triples_game [OF this] show "g_id g \<in> set (map g_id qualifying2)"
        by simp
    next
      assume "g_id g \<in> set (map g_id qualifying2)"
      then obtain g2 where g2: "g2 \<in> set qualifying2" "g_id g2 = g_id g" by auto
      from delivery_triples_mem [OF g2(1) A] g2(2) have "?ta \<in> set ?ts2" by simp
      with new(3) nda show "?ta \<in> fst ` set new" by blast
    qed
    moreover from new(2) db have "?tb \<notin> fst ` set new" by blast
    moreover from new(2) have "\<forall>t \<in> fst ` set new. \<not> delivered d1 t" by blast
    ultimately show ?thesis using True run2 new(1) by auto
  qed
  from run1 fa nda db second show ?thesis by blast
qed

theorem delivery_failure_is_isolated_witness:
  "\<exists>d1 log1.
      run_dispatcher ex_provider ''2025-06-01 09:00:00'' ''2025-05-30 09:00:00'' ex_qualifying
        (ex_store, []) = Inr (d1, log1) \<and>
      recorded d1 (3, 1, Sms) Failed \<and> \<not> delivered d1 (3, 1, Sms) \<and> delivered d1 (3, 2, Sms) \<and>
      (\<exists>d2 new.
          run_dispatcher (\<lambda>n t. True) ''2025-06-02 09:00:00'' ''2025-05-31 09:00:00'' ex_qualifying
            (d1, log1) = Inr (d2, log1 @ new) \<and>
          (3, 1, Sms) \<in> fst ` set new \<and> (3, 2, Sms) \<notin> fst ` set new) \<and>
      run_dispatcher (\<lambda>n t. True) ''2025-06-05 09:00:00'' ''2025-06-03 09:00:00'' ex_qualifying
        (d1, log1) = Inl DataFreshnessFailure"
proof -
  let ?g = "ex_games ! 2" and ?a = "ex_recipients ! 0" and ?b = "ex_recipients ! 1"
  have ids: "g_id ?g = 3" "r_id ?a = 1" "r_id ?b = 2"
    by (simp_all add: ex_games_def ex_recipients_def)
  have sync: "getSyncStatus ex_store = Some ''2025-06-01 06:00:00''"
    by (simp add: getSyncStatus_def sql_MAX_def ex_store_def ex_db_def ex_games_def)
  have fresh: "data_is_fresh ex_store ''2025-05-30 09:00:00''"
    by (simp add: data_is_fresh_def sync)
  have g: "?g \<in> set ex_qualifying" by (simp add: ex_qualifying_def)
  have games: "set (map g_id ex_qualifying) \<subseteq> set (map g_id (tbl_games ex_store))"
    by (simp add: ex_qualifying_def ex_store_def ex_db_def ex_games_def)
  have A: "?a \<in> set (tbl_recipients ex_store)" "active ?a = 1" "Sms \<in> set (channels_of ?a)"
    by (simp_all add: ex_store_def ex_recipients_def channels_of_def)
  have B: "?b \<in> set (tbl_recipients ex_store)" "active ?b = 1" "Sms \<in> set (channels_of ?b)"
    by (simp_all add: ex_store_def ex_recipients_def channels_of_def)
  have todo: "\<not> delivered ex_store (g_id ?g, r_id ?a, Sms)"
    by (simp add: delivered_def ex_store_def ex_db_def)
  have fails: "\<forall>n. \<not> ex_provider n (g_id ?g, r_id ?a, Sms)"
    unfolding ids by (simp add: ex_provider_def)
  have succeeds: "\<forall>n. ex_provider n (g_id ?g, r_id ?b, Sms)"
    unfolding ids by (simp add: ex_provider_def)
  from delivery_failure_is_isolated [OF fresh g games A B todo fails succeeds,
      of "''2025-06-01 09:00:00''" "[]"]
  obtain d1 log1 where
    run1: "run_dispatcher ex_provider ''2025-06-01 09:00:00'' ''2025-05-30 09:00:00'' ex_qualifying
        (ex_store, []) = Inr (d1, log1)"
    and recs: "recorded d1 (3, 1, Sms) Failed" "\<not> delivered d1 (3, 1, Sms)"
      "delivered d1 (3, 2, Sms)"
    and next_run: "\<And>provider2 now2 cutoff2 qualifying2.
        set (map g_id qualifying2) \<subseteq> set (map g_id (tbl_games ex_store)) \<Longrightarrow>
        (if data_is_fresh d1 cutoff2 then
           \<exists>d2 new.
             run_dispatcher provider2 now2 cutoff2 qualifying2 (d1, log1) = Inr (d2, log1 @ new) \<and>
             ((3, 1, Sms) \<in> fst ` set new \<longleftrightarrow> 3 \<in> set (map g_id qualifying2)) \<and>
             (3, 2, Sms) \<notin> fst ` set new \<and>
             (\<forall>t \<in> fst ` set new. \<not> delivered d1 t)
         else run_dispatcher provider2 now2 cutoff2 qualifying2 (d1, log1)
                = Inl DataFreshnessFailure)"
    unfolding ids by blast
  from run1 have "tbl_games d1 = tbl_games ex_store"
    by (auto simp: run_dispatcher_def split: if_splits sum.splits dest: dispatch_all_frame)
  then have f1: "data_is_fresh d1 cutoff2 = data_is_fresh ex_store cutoff2" for cutoff2
    by (rule data_is_fresh_games)
  have fresh2: "data_is_fresh d1 ''2025-05-31 09:00:00''"
    and stale3: "\<not> data_is_fresh d1 ''2025-06-03 09:00:00''"
    unfolding f1 by (simp_all add: data_is_fresh_def sync)
  have q3: "3 \<in> set (map g_id ex_qualifying)"
    by (simp add: ex_qualifying_def ex_games_def)
  from next_run [OF games, of "''2025-05-31 09:00:00''" "\<lambda>n t. True" "''2025-06-02 09:00:00''"]
    fresh2 q3
  have second: "\<exists>d2 new.
      run_dispatcher (\<lambda>n t. True) ''2025-06-02 09:00:00'' ''2025-05-31 09:00:00'' ex_qualifying
        (d1, log1) = Inr (d2, log1 @ new) \<and>
      (3, 1, Sms) \<in> fst ` set new \<and> (3, 2, Sms) \<notin> fst ` set new"
    by auto
  from next_run [OF games, of "''2025-06-03 09:00:00''" "\<lambda>n t. True" "''2025-06-05 09:00:00''"]
    stale3
  have third: "run_dispatcher (\<lambda>n t. True) ''2025-06-05 09:00:00'' ''2025-06-03 09:00:00''
      ex_qualifying (d1, log1) = Inl DataFreshnessFailure"
    by simp
  from run1 recs second third show ?thesis by blast
qed

text \<open>
  The claim as it was stated, "a subsequent run re-attempts only A's triple", fails where
  the subsequent run has other qualifying games. After the first run of the example,
  with a "failed" record for the sms to recipient 1 and a "delivered" one for the sms to
  recipient 2, the run of the next day on the Saturday game invokes the provider for that
  game's three triples and does not re-attempt the failed one.
\<close>

theorem delivery_retry_counterexample:
  "run_dispatcher ex_provider ''2025-06-01 09:00:00'' ''2025-05-30 09:00:00'' ex_qualifying
      (ex_store, []) = Inr ex_after_first_run \<and>
   recorded (fst ex_after_first_run) (3, 1, Sms) Failed \<and>
   delivered (fst ex_after_first_run) (3, 2, Sms) \<and>
   map_sum id snd
     (run_dispatcher (\<lambda>n t. True) ''2025-06-02 09:00:00'' ''2025-05-31 09:00:00'' [ex_games ! 0]
        ex_after_first_run)
     = Inr (snd ex_after_first_run @
            [((1, 1, Sms), True), ((1, 2, Sms), True), ((1, 2, Email), True)]) \<and>
   ((3, 1, Sms) :: triple) \<notin> set [(1, 1, Sms), (1, 2, Sms), (1, 2, Email)]"
  by (simp add: ex_after_first_run_def ex_store_def ex_db_def ex_games_def ex_recipients_def
      ex_qualifying_def ex_provider_def run_dispatcher_def data_is_fresh_def getSyncStatus_def
      sql_MAX_def delivery_triples_def channels_of_def dispatch_triple_def recorded_def
      delivered_def write_delivery_def insert_alert_def alert_key_def next_rowid_def Let_def)

section \<open>Properties of the promotion replacement\<close>

lemma insert_promotion_Inr:
  assumes "insert_promotion now gid d td = Inr d'"
  shows "\<exists>p. tbl_promotions d' = tbl_promotions d @ [p] \<and> game_id p = gid \<and>
           promo_type p = fst td \<and> description p = Some (snd td)"
    and "tbl_games d' = tbl_games d" and "gid \<in> set (map g_id (tbl_games d))"
  using assms by (auto simp: insert_promotion_def Let_def split: if_splits)

lemma insert_promotions_Inr:
  assumes "insert_promotions now gid d tds = Inr d'"
  shows "\<exists>ps. tbl_promotions d' = tbl_promotions d @ ps \<and>
           (\<forall>p \<in> set ps. game_id p = gid) \<and>
           map (\<lambda>p. (promo_type p, description p)) ps = map (\<lambda>td. (fst td, Some (snd td))) tds \<and>
           tbl_games d' = tbl_games d \<and> (tds \<noteq> [] \<longrightarrow> gid \<in> set (map g_id (tbl_games d)))"
  using assms
proof (induction tds arbitrary: d)
  case Nil
  then show ?case by simp
next
  case (Cons td tds)
  from Cons.prems obtain d1 where one: "insert_promotion now gid d td = Inr d1"
    and rest: "insert_promotions now gid d1 tds = Inr d'"
    by (auto split: sum.splits)
  from insert_promotion_Inr [OF one] obtain p where p:
    "tbl_promotions d1 = tbl_promotions d @ [p]" "game_id p = gid" "promo_type p = fst td"
    "description p = Some (snd td)" and g1: "tbl_games d1 = tbl_games d"
    and fk: "gid \<in> set (map g_id (tbl_games d))"
    by blast
  from Cons.IH [OF rest] obtain ps where ps:
    "tbl_promotions d' = tbl_promotions d1 @ ps" "\<forall>p \<in> set ps. game_id p = gid"
    "map (\<lambda>p. (promo_type p, description p)) ps = map (\<lambda>td. (fst td, Some (snd td))) tds"
    "tbl_games d' = tbl_games d1"
    by blast
  show ?case
    using p ps g1 fk by (intro exI [of _ "p # ps"]) simp
qed

lemma insert_promotions_succeeds:
  assumes "gid \<in> set (map g_id (tbl_games d))" and "\<forall>td \<in> set tds. fst td \<in> set promo_types"
  shows "\<exists>d'. insert_promotions now gid d tds = Inr d'"
  using assms
proof (induction tds arbitrary: d)
  case Nil
  then show ?case by simp
next
  case (Cons td tds)
  from Cons.prems obtain d1 where one: "insert_promotion now gid d td = Inr d1"
    by (auto simp: insert_promotion_def promo_type_check_def Let_def)
  from insert_promotion_Inr(2) [OF one] Cons.prems(1)
  have "gid \<in> set (map g_id (tbl_games d1))" by simp
  from Cons.IH [OF this] Cons.prems(2) one show ?case by auto
qed

lemma upsert_promotions_Inr:
  assumes "upsert_promotions now d gid promo_list = Inr d'"
  shows "map (\<lambda>p. (promo_type p, description p)) (filter (\<lambda>p. game_id p = gid) (tbl_promotions d'))
           = map (\<lambda>td. (fst td, Some (snd td))) promo_list"
    and "filter (\<lambda>p. game_id p \<noteq> gid) (tbl_promotions d') = filter (\<lambda>p. game_id p \<noteq> gid) (tbl_promotions d)"
    and "no_orphans d \<Longrightarrow> no_orphans d'"
proof -
  let ?d0 = "d\<lparr>tbl_promotions := filter (\<lambda>p. game_id p \<noteq> gid) (tbl_promotions d)\<rparr>"
  from assms have "insert_promotions now gid ?d0 promo_list = Inr d'"
    by (simp add: upsert_promotions_def)
  from insert_promotions_Inr [OF this] obtain ps where ps:
    "tbl_promotions d' = filter (\<lambda>p. game_id p \<noteq> gid) (tbl_promotions d) @ ps"
    "\<forall>p \<in> set ps. game_id p = gid"
    "map (\<lambda>p. (promo_type p, description p)) ps = map (\<lambda>td. (fst td, Some (snd td))) promo_list"
    "tbl_games d' = tbl_games d" "promo_list \<noteq> [] \<longrightarrow> gid \<in> set (map g_id (tbl_games d))"
    by auto
  from ps(2) have all: "filter (\<lambda>p. game_id p = gid) ps = ps"
    and none: "filter (\<lambda>p. game_id p \<noteq> gid) ps = []"
    by (auto simp: filter_empty_conv)
  show "map (\<lambda>p. (promo_type p, description p)) (filter (\<lambda>p. game_id p = gid) (tbl_promotions d'))
           = map (\<lambda>td. (fst td, Some (snd td))) promo_list"
    by (simp add: ps(1) all ps(3))
  show "filter (\<lambda>p. game_id p \<noteq> gid) (tbl_promotions d') = filter (\<lambda>p. game_id p \<noteq> gid) (tbl_promotions d)"
    by (simp add: ps(1) none)
  show "no_orphans d'" if "no_orphans d"
  proof -
    have "ps \<noteq> [] \<longrightarrow> promo_list \<noteq> []" using ps(3) by auto
    with ps(5) have "ps \<noteq> [] \<longrightarrow> gid \<in> set (map g_id (tbl_games d))" by blast
    with that ps(1,2,4) show ?thesis by (auto simp: no_orphans_def)
  qed
qed

lemma upsert_promotions_empty:
  "\<exists>d0. upsert_promotions now d gid [] = Inr d0 \<and>
      filter (\<lambda>p. game_id p = gid) (tbl_promotions d0) = []"
  by (simp add: upsert_promotions_def filter_empty_conv)

lemma delete_game_Inr:
  assumes "delete_game d gid = Inr d'"
  shows "gid \<in> set (map g_id (tbl_games d)) \<or> no_orphans d \<Longrightarrow>
           filter (\<lambda>p. game_id p = gid) (tbl_promotions d') = []"
    and "no_orphans d \<Longrightarrow> no_orphans d'"
proof -
  show "filter (\<lambda>p. game_id p = gid) (tbl_promotions d') = []"
    if "gid \<in> set (map g_id (tbl_games d)) \<or> no_orphans d"
  proof (cases "gid \<in> set (map g_id (tbl_games d))")
    case True
    with assms show ?thesis
      by (auto simp: delete_game_def filter_empty_conv split: if_splits)
  next
    case False
    with assms have "d' = d" by (simp add: delete_game_def)
    moreover from False that have "no_orphans d" by blast
    ultimately show ?thesis using False by (auto simp: no_orphans_def filter_empty_conv)
  qed
  show "no_orphans d'" if "no_orphans d"
  proof (cases "gid \<in> set (map g_id (tbl_games d))")
    case False
    with assms that show ?thesis by (simp add: delete_game_def)
  next
    case True
    with assms have g: "tbl_games d' = filter (\<lambda>g. g_id g \<noteq> gid) (tbl_games d)"
      and p: "tbl_promotions d' = filter (\<lambda>p. game_id p \<noteq> gid) (tbl_promotions d)"
      by (auto simp: delete_game_def split: if_splits)
    show ?thesis
      unfolding no_orphans_def
    proof
      fix q assume "q \<in> set (tbl_promotions d')"
      with p have q: "q \<in> set (tbl_promotions d)" "game_id q \<noteq> gid" by simp_all
      with that obtain x where "x \<in> set (tbl_games d)" "g_id x = game_id q"
        by (auto simp: no_orphans_def)
      with q(2) have "x \<in> set (tbl_games d')" by (simp add: g)
      with \<open>g_id x = game_id q\<close> show "game_id q \<in> set (map g_id (tbl_games d'))"
        by force
    qed
  qed
qed

text \<open>
  Claim C6. A promotion-ingestion run replaces the game's whole promotion set: when the
  replacement succeeds, the stored promotions of the game are exactly the freshly parsed
  (type, description) pairs, in order, and the promotions of every other game are as
  before. It succeeds whenever the game exists and every type is one of the enum.
  Replacing with the empty list always succeeds and leaves no promotion for the game.
  Deleting a game removes all its promotions with it. Neither step creates an orphan: a
  store without orphan promotions stays without.
\<close>

theorem promotions_replaced_and_cascaded:
  "(upsert_promotions now d gid promo_list = Inr d' \<longrightarrow>
      map (\<lambda>p. (promo_type p, description p)) (filter (\<lambda>p. game_id p = gid) (tbl_promotions d'))
        = map (\<lambda>td. (fst td, Some (snd td))) promo_list \<and>
      filter (\<lambda>p. game_id p \<noteq> gid) (tbl_promotions d')
        = filter (\<lambda>p. game_id p \<noteq> gid) (tbl_promotions d) \<and>
      (no_orphans d \<longrightarrow> no_orphans d')) \<and>
   (gid \<in> set (map g_id (tbl_games d)) \<and> (\<forall>td \<in> set promo_list. fst td \<in> set promo_types) \<longrightarrow>
      (\<exists>d1. upsert_promotions now d gid promo_list = Inr d1)) \<and>
   (\<exists>d0. upsert_promotions now d gid [] = Inr d0 \<and>
      filter (\<lambda>p. game_id p = gid) (tbl_promotions d0) = []) \<and>
   (delete_game d gid = Inr d2 \<longrightarrow>
      (gid \<in> set (map g_id (tbl_games d)) \<or> no_orphans d \<longrightarrow>
         filter (\<lambda>p. game_id p = gid) (tbl_promotions d2) = []) \<and>
      (no_orphans d \<longrightarrow> no_orphans d2))"
proof (intro conjI impI)
  assume u: "upsert_promotions now d gid promo_list = Inr d'"
  show "map (\<lambda>p. (promo_type p, description p)) (filter (\<lambda>p. game_id p = gid) (tbl_promotions d'))
        = map (\<lambda>td. (fst td, Some (snd td))) promo_list"
    by (rule upsert_promotions_Inr(1) [OF u])
  show "filter (\<lambda>p. game_id p \<noteq> gid) (tbl_promotions d')
        = filter (\<lambda>p. game_id p \<noteq> gid) (tbl_promotions d)"
    by (rule upsert_promotions_Inr(2) [OF u])
  show "no_orphans d'" if "no_orphans d"
    by (rule upsert_promotions_Inr(3) [OF u that])
next
  assume "gid \<in> set (map g_id (tbl_games d)) \<and> (\<forall>td \<in> set promo_list. fst td \<in> set promo_types)"
  then show "\<exists>d1. upsert_promotions now d gid promo_list = Inr d1"
    unfolding upsert_promotions_def
    using insert_promotions_succeeds
      [of gid "d\<lparr>tbl_promotions := filter (\<lambda>p. game_id p \<noteq> gid) (tbl_promotions d)\<rparr>" promo_list now]
    by simp
next
  show "\<exists>d0. upsert_promotions now d gid [] = Inr d0 \<and>
      filter (\<lambda>p. game_id p = gid) (tbl_promotions d0) = []"
    by (rule upsert_promotions_empty)
next
  assume del: "delete_game d gid = Inr d2"
  show "filter (\<lambda>p. game_id p = gid) (tbl_promotions d2) = []"
    if "gid \<in> set (map g_id (tbl_games d)) \<or> no_orphans d"
    by (rule delete_game_Inr(1) [OF del that])
  show "no_orphans d2" if "no_orphans d"
    by (rule delete_game_Inr(2) [OF del that])
qed


theorem promotions_replaced_and_cascaded_witness:
  "(\<exists>d1. upsert_promotions ''2025-06-03 08:00:00'' ex_db 3
            [(''fireworks'', ''Fireworks Night''), (''theme'', ''Space Night'')] = Inr d1 \<and>
      map (\<lambda>p. (promo_type p, description p)) (filter (\<lambda>p. game_id p = 3) (tbl_promotions d1))
        = [(''fireworks'', Some ''Fireworks Night''), (''theme'', Some ''Space Night'')] \<and>
      filter (\<lambda>p. game_id p \<noteq> 3) (tbl_promotions d1) = [ex_promotions ! 1] \<and>
      no_orphans d1) \<and>
   (\<exists>d2. delete_game ex_db 3 = Inr d2 \<and> map p_id (tbl_promotions d2) = [2] \<and> no_orphans d2)"
proof -
  let ?now = "''2025-06-03 08:00:00''"
  let ?l = "[(''fireworks'', ''Fireworks Night''), (''theme'', ''Space Night'')]"
  have orph: "no_orphans ex_db"
    by (simp add: no_orphans_def ex_db_def ex_games_def ex_promotions_def)
  have fk: "3 \<in> set (map g_id (tbl_games ex_db)) \<and> (\<forall>td \<in> set ?l. fst td \<in> set promo_types)"
    by (simp add: ex_db_def ex_games_def promo_types_def)
  have del: "delete_game ex_db 3 = Inr (ex_db\<lparr>tbl_games := [ex_games ! 0, ex_games ! 1],
      tbl_promotions := [ex_promotions ! 1]\<rparr>)" (is "_ = Inr ?d2")
    by (simp add: delete_game_def ex_db_def ex_games_def ex_promotions_def)
  from promotions_replaced_and_cascaded [of ?now ex_db 3 ?l _ ?d2] fk
  obtain d1 where d1: "upsert_promotions ?now ex_db 3 ?l = Inr d1" by blast
  from promotions_replaced_and_cascaded [of ?now ex_db 3 ?l d1 ?d2] d1 orph del
  have "map (\<lambda>p. (promo_type p, description p)) (filter (\<lambda>p. game_id p = 3) (tbl_promotions d1))
        = map (\<lambda>td. (fst td, Some (snd td))) ?l"
    and "filter (\<lambda>p. game_id p \<noteq> 3) (tbl_promotions d1)
        = filter (\<lambda>p. game_id p \<noteq> 3) (tbl_promotions ex_db)"
    and "no_orphans d1" and "no_orphans ?d2"
    by blast+
  then have "map (\<lambda>p. (promo_type p, description p)) (filter (\<lambda>p. game_id p = 3) (tbl_promotions d1))
        = [(''fireworks'', Some ''Fireworks Night''), (''theme'', Some ''Space Night'')]"
    and "filter (\<lambda>p. game_id p \<noteq> 3) (tbl_promotions d1) = [ex_promotions ! 1]"
    and "no_orphans d1" and "no_orphans ?d2"
    by (simp_all add: ex_db_def ex_promotions_def)
  moreover have "map p_id (tbl_promotions ?d2) = [2]"
    by (simp add: ex_promotions_def)
  ultimately have a: "upsert_promotions ?now ex_db 3 ?l = Inr d1 \<and>
      map (\<lambda>p. (promo_type p, description p)) (filter (\<lambda>p. game_id p = 3) (tbl_promotions d1))
        = [(''fireworks'', Some ''Fireworks Night''), (''theme'', Some ''Space Night'')] \<and>
      filter (\<lambda>p. game_id p \<noteq> 3) (tbl_promotions d1) = [ex_promotions ! 1] \<and>
      no_orphans d1"
    and b: "delete_game ex_db 3 = Inr ?d2 \<and> map p_id (tbl_promotions ?d2) = [2] \<and> no_orphans ?d2"
    using d1 del by simp_all
  show ?thesis
    by (rule conjI, rule exI [of _ d1], rule a, rule exI [of _ ?d2], rule b)
qed


end
